theory Spec2Isabelle
  imports Complex_Main "HOL-Library.Sublist" "HOL-Library.Multiset"
begin

section \<open>bf.py: the tape-machine interpreter\<close>

text \<open>
  Python exceptions that the modelled code can raise are values of \<open>error\<close>; a function
  that may raise returns \<open>error + 'a\<close>, with \<open>Inl\<close> for the exception.  A loop that
  may run forever is a \<^theory_text>\<open>partial_function\<close> in the option monad: \<open>None\<close> means
  that the call does not return.
\<close>

datatype error = IndexError | KeyError | ValueError | ZeroDivisionError | RuntimeError
  | AssertionError

text \<open>\<open>class Status\<close>: four string constants.\<close>

definition SUCCESS :: string where "SUCCESS = ''success''"
definition TIMEOUT :: string where "TIMEOUT = ''timeout''"
definition STEP_LIMIT :: string where "STEP_LIMIT = ''step-limit''"
definition SYNTAX_ERROR :: string where "SYNTAX_ERROR = ''syntax-error''"

definition CHARS :: "char list" where
  "CHARS = [CHR ''>'', CHR ''<'', CHR ''+'', CHR ''-'', CHR ''['', CHR '']'', CHR ''.'', CHR '','']"

text \<open>
  \<open>ExecutionSnapshot\<close> and \<open>EvalResult\<close> (namedtuples).  The \<open>time\<close> field of
  \<open>EvalResult\<close>, a wall-clock reading, is left out; its \<open>output\<close> field is
  \<open>output_list\<close> here.
\<close>

datatype ExecutionSnapshot = ExecutionSnapshot
  (snap_codeptr: nat) (snap_codechar: string) (snap_memptr: nat) (snap_memval: int)
  (snap_memory: "int list") (snap_next_input: int) (snap_output_buffer: "int list")

record EvalResult =
  output_list :: "int list"
  success :: bool
  failure_reason :: string
  steps :: nat
  memory :: "int list option"
  program_trace :: "ExecutionSnapshot list option"

text \<open>
  \<open>buildbracemap\<close>: one scan over \<open>enumerate(code)\<close> with a stack of the positions of
  open braces (top at the end of the list, as \<open>append\<close>/\<open>pop\<close> have it), then the
  loop over what is left on the stack.
\<close>

fun buildbracemap_scan ::
  "char list \<Rightarrow> nat \<Rightarrow> nat list \<Rightarrow> (nat \<rightharpoonup> nat) \<Rightarrow> bool \<Rightarrow> nat list \<times> (nat \<rightharpoonup> nat) \<times> bool"
where
  "buildbracemap_scan [] position bracestack bracemap correct_syntax =
     (bracestack, bracemap, correct_syntax)"
| "buildbracemap_scan (command # rest) position bracestack bracemap correct_syntax =
     (let bracestack1 =
            (if command = CHR ''['' then bracestack @ [position] else bracestack)
      in if command = CHR '']'' then
           (if bracestack1 = [] then
              buildbracemap_scan rest (position + 1) bracestack1
                (bracemap(position \<mapsto> position)) False
            else
              (let start = last bracestack1
               in buildbracemap_scan rest (position + 1) (butlast bracestack1)
                    (bracemap(start \<mapsto> position, position \<mapsto> start)) correct_syntax))
         else buildbracemap_scan rest (position + 1) bracestack1 bracemap correct_syntax)"

fun map_unmatched :: "(nat \<rightharpoonup> nat) \<Rightarrow> nat list \<Rightarrow> (nat \<rightharpoonup> nat)" where
  "map_unmatched bracemap [] = bracemap"
| "map_unmatched bracemap (pos # rest) = map_unmatched (bracemap(pos \<mapsto> pos)) rest"

definition buildbracemap :: "char list \<Rightarrow> (nat \<rightharpoonup> nat) \<times> bool" where
  "buildbracemap code =
     (case buildbracemap_scan code 0 [] Map.empty True of
        (bracestack, bracemap, correct_syntax) \<Rightarrow>
          (if bracestack \<noteq> [] then (map_unmatched bracemap bracestack, False)
           else (bracemap, correct_syntax)))"

text \<open>
  The local variables of \<open>evaluate\<close> that its loop changes.  \<open>input_iter\<close> is the
  \<open>LookAheadIterator\<close>, held as the list of the elements not yet read; \<open>nsteps\<close> is
  the local \<open>steps\<close> and \<open>trace\<close> the local \<open>program_trace\<close>.
\<close>

record state =
  codeptr :: nat
  cellptr :: nat
  cells :: "int list"
  input_iter :: "int list"
  output_buffer :: "int list"
  nsteps :: nat
  trace :: "ExecutionSnapshot list"

text \<open>\<open>LookAheadIterator.peek(null_value)\<close> and \<open>next(input_iter, null_value)\<close>.\<close>

definition peek :: "int list \<Rightarrow> int \<Rightarrow> int" where
  "peek it default_value = (case it of [] \<Rightarrow> default_value | x # _ \<Rightarrow> x)"

definition next_or :: "int list \<Rightarrow> int \<Rightarrow> int \<times> int list" where
  "next_or it default_value = (case it of [] \<Rightarrow> (default_value, []) | x # r \<Rightarrow> (x, r))"

definition null_value :: int where
  "null_value = 0"

text \<open>
  The snapshot appended to the trace when \<open>debug\<close> is set: \<open>cells[cellptr]\<close> raises
  \<open>IndexError\<close> out of range.
\<close>

definition snapshot :: "string \<Rightarrow> state \<Rightarrow> error + ExecutionSnapshot" where
  "snapshot command st =
     (if cellptr st < length (cells st) then
        Inr (ExecutionSnapshot (codeptr st) command (cellptr st) (cells st ! cellptr st)
               (cells st) (peek (input_iter st) null_value) (output_buffer st))
      else Inl IndexError)"

text \<open>
  The eight \<open>if command == ...\<close> statements of the loop body.  \<open>command\<close> is one
  character, so at most one of them fires.
\<close>

definition exec_command :: "(nat \<rightharpoonup> nat) \<Rightarrow> int \<Rightarrow> char \<Rightarrow> state \<Rightarrow> error + state" where
  "exec_command bracemap base command st =
     (if command = CHR ''>'' then
        (let cellptr1 = cellptr st + 1
         in Inr (st\<lparr>cellptr := cellptr1,
                   cells := (if cellptr1 = length (cells st) then cells st @ [null_value]
                             else cells st)\<rparr>))
      else if command = CHR ''<'' then
        Inr (st\<lparr>cellptr := (if cellptr st \<le> 0 then 0 else cellptr st - 1)\<rparr>)
      else if command = CHR ''+'' then
        (if cellptr st < length (cells st) then
           Inr (st\<lparr>cells := (cells st)[cellptr st :=
                  (if cells st ! cellptr st < base - 1 then cells st ! cellptr st + 1 else 0)]\<rparr>)
         else Inl IndexError)
      else if command = CHR ''-'' then
        (if cellptr st < length (cells st) then
           Inr (st\<lparr>cells := (cells st)[cellptr st :=
                  (if cells st ! cellptr st > 0 then cells st ! cellptr st - 1 else base - 1)]\<rparr>)
         else Inl IndexError)
      else if command = CHR ''['' then
        (if cellptr st < length (cells st) then
           (if cells st ! cellptr st = 0 then
              (case bracemap (codeptr st) of
                 None \<Rightarrow> Inl KeyError
               | Some j \<Rightarrow> Inr (st\<lparr>codeptr := j\<rparr>))
            else Inr st)
         else Inl IndexError)
      else if command = CHR '']'' then
        (if cellptr st < length (cells st) then
           (if cells st ! cellptr st \<noteq> 0 then
              (case bracemap (codeptr st) of
                 None \<Rightarrow> Inl KeyError
               | Some j \<Rightarrow> Inr (st\<lparr>codeptr := j\<rparr>))
            else Inr st)
         else Inl IndexError)
      else if command = CHR ''.'' then
        (if cellptr st < length (cells st) then
           Inr (st\<lparr>output_buffer := output_buffer st @ [cells st ! cellptr st]\<rparr>)
         else Inl IndexError)
      else if command = CHR '','' then
        (case next_or (input_iter st) null_value of
           (v, it) \<Rightarrow>
             (if cellptr st < length (cells st) then
                Inr (st\<lparr>cells := (cells st)[cellptr st := v], input_iter := it\<rparr>)
              else Inl IndexError))
      else Inr st)"

text \<open>
  One pass through the body of the \<open>while\<close> loop, up to and including
  \<open>codeptr += 1; steps += 1\<close>.  It is only entered with \<open>codeptr < len(code)\<close>.
\<close>

definition loop_body :: "char list \<Rightarrow> (nat \<rightharpoonup> nat) \<Rightarrow> int \<Rightarrow> bool \<Rightarrow> state \<Rightarrow> error + state" where
  "loop_body code bracemap base debug st =
     (let command = code ! codeptr st
      in case (if debug then
                 (case snapshot [command] st of
                    Inl e \<Rightarrow> Inl e
                  | Inr s \<Rightarrow> Inr (st\<lparr>trace := trace st @ [s]\<rparr>))
               else Inr st) of
           Inl e \<Rightarrow> Inl e
         | Inr st1 \<Rightarrow>
             (case exec_command bracemap base command st1 of
                Inl e \<Rightarrow> Inl e
              | Inr st2 \<Rightarrow> Inr (st2\<lparr>codeptr := codeptr st2 + 1, nsteps := nsteps st2 + 1\<rparr>)))"

text \<open>
  The two tests made after every pass.  The wall clock is an input of the model:
  \<open>timeout\<close> is \<open>None\<close> when the limit is disabled, and otherwise \<open>Some expired\<close>,
  where \<open>expired k\<close> is the outcome of \<open>time.time() - start_time > timeout\<close> at the
  test made when \<open>steps = k\<close>.
\<close>

definition timeout_hit :: "(nat \<Rightarrow> bool) option \<Rightarrow> nat \<Rightarrow> bool" where
  "timeout_hit timeout k = (case timeout of None \<Rightarrow> False | Some expired \<Rightarrow> expired k)"

definition max_steps_hit :: "int option \<Rightarrow> nat \<Rightarrow> bool" where
  "max_steps_hit max_steps k = (case max_steps of None \<Rightarrow> False | Some m \<Rightarrow> int k \<ge> m)"

text \<open>
  The \<open>while codeptr < len(code)\<close> loop; it returns the final locals together with
  \<open>success\<close> and \<open>reason\<close>.
\<close>

partial_function (option) while_loop ::
  "char list \<Rightarrow> (nat \<rightharpoonup> nat) \<Rightarrow> int \<Rightarrow> (nat \<Rightarrow> bool) option \<Rightarrow> int option \<Rightarrow> bool \<Rightarrow> state
     \<Rightarrow> (error + state \<times> bool \<times> string) option"
where
  "while_loop code bracemap base timeout max_steps debug st =
     (if codeptr st < length code then
        (case loop_body code bracemap base debug st of
           Inl e \<Rightarrow> Some (Inl e)
         | Inr st1 \<Rightarrow>
             if timeout_hit timeout (nsteps st1) then Some (Inr (st1, False, TIMEOUT))
             else if max_steps_hit max_steps (nsteps st1) then Some (Inr (st1, False, STEP_LIMIT))
             else while_loop code bracemap base timeout max_steps debug st1)
      else Some (Inr (st, True, SUCCESS)))"

declare while_loop.simps [code]

text \<open>
  \<open>evaluate\<close>.  Every keyword argument is an argument of the model; the defaults of
  the source are \<open>input_buffer=None\<close>, \<open>init_memory=None\<close>, \<open>base=256\<close>,
  \<open>timeout=1.0\<close>, \<open>max_steps=None\<close>, \<open>require_correct_syntax=True\<close>,
  \<open>output_memory=False\<close>, \<open>debug=False\<close>.
\<close>

definition initial_state :: "int list option \<Rightarrow> int list option \<Rightarrow> state" where
  "initial_state input_buffer init_memory =
     \<lparr>codeptr = 0, cellptr = 0,
      cells = (case init_memory of None \<Rightarrow> [0] | Some m \<Rightarrow> (if m \<noteq> [] then m else [0])),
      input_iter = (case input_buffer of None \<Rightarrow> [] | Some b \<Rightarrow> b),
      output_buffer = [], nsteps = 0, trace = []\<rparr>"

definition finish :: "char list \<Rightarrow> bool \<Rightarrow> bool \<Rightarrow> state \<times> bool \<times> string \<Rightarrow> error + EvalResult" where
  "finish code output_memory debug r =
     (case r of (st, success1, reason) \<Rightarrow>
        (case (if debug then
                 (case snapshot (if codeptr st < length code then [code ! codeptr st] else []) st of
                    Inl e \<Rightarrow> Inl e
                  | Inr s \<Rightarrow> Inr (st\<lparr>trace := trace st @ [s]\<rparr>))
               else Inr st) of
           Inl e \<Rightarrow> Inl e
         | Inr st1 \<Rightarrow>
             Inr \<lparr>output_list = output_buffer st1, success = success1, failure_reason = reason,
                  steps = nsteps st1,
                  memory = (if output_memory then Some (cells st1) else None),
                  program_trace = (if debug then Some (trace st1) else None)\<rparr>))"

definition evaluate ::
  "char list \<Rightarrow> int list option \<Rightarrow> int list option \<Rightarrow> int \<Rightarrow> (nat \<Rightarrow> bool) option \<Rightarrow> int option
     \<Rightarrow> bool \<Rightarrow> bool \<Rightarrow> bool \<Rightarrow> (error + EvalResult) option"
where
  "evaluate code input_buffer init_memory base timeout max_steps require_correct_syntax
      output_memory debug =
     (case buildbracemap code of
        (bracemap, correct_syntax) \<Rightarrow>
          if require_correct_syntax \<and> \<not> correct_syntax then
            Some (Inr \<lparr>output_list = [], success = False, failure_reason = SYNTAX_ERROR, steps = 0,
                       memory = (if output_memory then Some [] else None),
                       program_trace = (if debug then Some [] else None)\<rparr>)
          else
            (case while_loop code bracemap base timeout max_steps debug
                    (initial_state input_buffer init_memory) of
               None \<Rightarrow> None
             | Some (Inl e) \<Rightarrow> Some (Inl e)
             | Some (Inr r) \<Rightarrow> Some (finish code output_memory debug r)))"

text \<open>
  Two predicates used to show that \<open>evaluate\<close> raises no exception: the data pointer
  is inside the tape, and the jump map has an entry at the position of every brace.
\<close>

definition wf_state :: "state \<Rightarrow> bool" where
  "wf_state st = (cellptr st < length (cells st))"

definition brackets_covered :: "char list \<Rightarrow> (nat \<rightharpoonup> nat) \<Rightarrow> bool" where
  "brackets_covered code bm =
     (\<forall>i < length code. code ! i = CHR ''['' \<or> code ! i = CHR '']'' \<longrightarrow> i \<in> dom bm)"

text \<open>All values of a list lie in \<open>0..base-1\<close>.\<close>

definition in_range :: "int \<Rightarrow> int list \<Rightarrow> bool" where
  "in_range base xs = (\<forall>v \<in> set xs. 0 \<le> v \<and> v < base)"

text \<open>The invariant of the loop behind the bound on cell values.\<close>

definition range_inv :: "int \<Rightarrow> state \<Rightarrow> bool" where
  "range_inv base st = (in_range base (cells st) \<and> in_range base (input_iter st)
      \<and> (\<forall>s \<in> set (trace st). in_range base (snap_memory s)))"


section \<open>reward.py and code_tasks.py: scoring a program\<close>

text \<open>
  Python floats are modelled as real numbers: nothing below depends on rounding.  A float
  division by zero raises \<open>ZeroDivisionError\<close>.
\<close>

definition abs_diff :: "int \<Rightarrow> int \<Rightarrow> int \<Rightarrow> int" where
  "abs_diff a b base = \<bar>a - b\<bar>"

text \<open>
  \<open>absolute_distance\<close>: the loop over \<open>enumerate(target)\<close>, then the surcharge for the
  extra slots of \<open>pred\<close>.
\<close>

fun absolute_distance_loop ::
  "int list \<Rightarrow> int \<Rightarrow> (int \<Rightarrow> int \<Rightarrow> int \<Rightarrow> int) \<Rightarrow> nat \<Rightarrow> int list \<Rightarrow> int \<Rightarrow> int"
where
  "absolute_distance_loop pred base scalar_diff_fn i [] d = d"
| "absolute_distance_loop pred base scalar_diff_fn i (target_t # rest) d =
     absolute_distance_loop pred base scalar_diff_fn (i + 1) rest
       (if i \<ge> length pred then d + base else d + scalar_diff_fn (pred ! i) target_t base)"

definition absolute_distance ::
  "int list \<Rightarrow> int list \<Rightarrow> int \<Rightarrow> (int \<Rightarrow> int \<Rightarrow> int \<Rightarrow> int) \<Rightarrow> int"
where
  "absolute_distance pred target base scalar_diff_fn =
     (let d = absolute_distance_loop pred base scalar_diff_fn 0 target 0
      in if length pred > length target
         then d + (int (length pred) - int (length target)) * base
         else d)"

definition absolute_distance_reward :: "int list \<Rightarrow> int list \<Rightarrow> int \<Rightarrow> error + real" where
  "absolute_distance_reward pred target base =
     (let unit_dist0 = real_of_int (base * int (length target));
          unit_dist = (if unit_dist0 = 0 then real_of_int base else unit_dist0);
          dist = absolute_distance pred target base abs_diff
      in if unit_dist = 0 then Inl ZeroDivisionError
         else Inr ((unit_dist - real_of_int dist) / unit_dist))"

definition clipped_linear :: "real \<Rightarrow> real \<Rightarrow> real \<Rightarrow> real \<Rightarrow> real \<times> real \<Rightarrow> real" where
  "clipped_linear x x0 y0 slope y_range =
     (case y_range of (min_y, max_y) \<Rightarrow> min (max (slope * (x - x0) + y0) min_y) max_y)"

definition MAX_EXECUTION_STEPS :: int where
  "MAX_EXECUTION_STEPS = 5000"

text \<open>\<open>misc.IOType\<close>.\<close>

definition IOType_string :: string where "IOType_string = ''string''"
definition IOType_integer :: string where "IOType_integer = ''integer''"
definition IOType_boolean :: string where "IOType_boolean = ''boolean''"

text \<open>
  A task (\<open>BaseTask\<close>): its \<open>base\<close>, what \<open>make_io_set()\<close> returns, and the attributes
  \<open>input_type\<close> and \<open>output_type\<close> when it has them.
\<close>

record Task =
  task_base :: int
  make_io_set :: "(int list \<times> int list) list"
  task_input_type :: "string option"
  task_output_type :: "string option"

record MultiIOTaskManager =
  task :: Task
  max_code_length :: real
  min_code_length :: real
  max_execution_steps :: int
  require_correct_syntax :: bool
  correct_bonus :: real
  code_length_bonus :: real
  failure_reward :: real
  time_penalty :: real
  reward_fn :: "int list \<Rightarrow> int list \<Rightarrow> int \<Rightarrow> error + real"
  input_type :: string
  output_type :: string
  best_reward :: real
  good_reward :: real

text \<open>
  The keyword arguments of \<open>MultiIOTaskManager.__init__\<close>: \<open>None\<close> stands for an
  argument that the caller leaves out, so that the default of the signature applies.
\<close>

record init_kwargs =
  kw_max_code_length :: "real option"
  kw_min_code_length :: "real option"
  kw_max_execution_steps :: "int option"
  kw_correct_bonus :: "real option"
  kw_code_length_bonus :: "real option"
  kw_failure_reward :: "real option"
  kw_reward_fn :: "(int list \<Rightarrow> int list \<Rightarrow> int \<Rightarrow> error + real) option"
  kw_require_correct_syntax :: "bool option"

definition no_kwargs :: init_kwargs where
  "no_kwargs = \<lparr>kw_max_code_length = None, kw_min_code_length = None,
     kw_max_execution_steps = None, kw_correct_bonus = None, kw_code_length_bonus = None,
     kw_failure_reward = None, kw_reward_fn = None, kw_require_correct_syntax = None\<rparr>"

definition arg :: "'a option \<Rightarrow> 'a \<Rightarrow> 'a" where
  "arg given default_value = (case given of None \<Rightarrow> default_value | Some v \<Rightarrow> v)"

text \<open>\<open>_compute_best_reward\<close>: the loop over the test cases.\<close>

fun compute_best_reward_loop ::
  "(int list \<Rightarrow> int list \<Rightarrow> int \<Rightarrow> error + real) \<Rightarrow> int \<Rightarrow> real \<Rightarrow> real
     \<Rightarrow> (int list \<times> int list) list \<Rightarrow> real \<Rightarrow> error + real"
where
  "compute_best_reward_loop rf b cb clb [] reward = Inr reward"
| "compute_best_reward_loop rf b cb clb ((input_seq, output_seq) # rest) reward =
     (case rf output_seq output_seq b of
        Inl e \<Rightarrow> Inl e
      | Inr v \<Rightarrow> compute_best_reward_loop rf b cb clb rest (reward + v + cb + clb))"

definition MultiIOTaskManager_init :: "Task \<Rightarrow> init_kwargs \<Rightarrow> error + MultiIOTaskManager" where
  "MultiIOTaskManager_init t kw =
     (let max_len = arg (kw_max_code_length kw) 32;
          min_len = arg (kw_min_code_length kw) 0;
          cb = arg (kw_correct_bonus kw) 1.0;
          clb = arg (kw_code_length_bonus kw) 1.0;
          rf = (case kw_reward_fn kw of None \<Rightarrow> absolute_distance_reward | Some f \<Rightarrow> f)
      in case compute_best_reward_loop rf (task_base t) cb clb (make_io_set t) 0.0 of
           Inl e \<Rightarrow> Inl e
         | Inr reward \<Rightarrow>
             Inr \<lparr>task = t,
                  max_code_length = max_len,
                  min_code_length = min_len,
                  max_execution_steps = arg (kw_max_execution_steps kw) MAX_EXECUTION_STEPS,
                  require_correct_syntax = arg (kw_require_correct_syntax kw) False,
                  correct_bonus = cb,
                  code_length_bonus = clb,
                  failure_reward = arg (kw_failure_reward kw) (- 2.0),
                  time_penalty = (if max_len > min_len then 1.0 / (max_len - min_len) else 0.0),
                  reward_fn = rf,
                  input_type = arg (task_input_type t) IOType_integer,
                  output_type = arg (task_output_type t) IOType_integer,
                  best_reward = reward,
                  good_reward = 0.75 * reward\<rparr>)"

record RewardInfo =
  episode_rewards :: "real list"
  input_case :: "int list list"
  correct_output :: "int list list"
  code_output :: "int list list"
  reason :: string
  info_input_type :: string
  info_output_type :: string

text \<open>
  The \<open>for\<close> loop of \<open>_score_code\<close> over the test cases, from the \<open>i\<close>-th on; it carries
  \<open>terminal_reward\<close>, \<open>results\<close> and \<open>reason\<close>.  Every call of \<open>bf.evaluate\<close> has a
  wall clock of its own: \<open>clock i\<close> is the outcome of the timeout test in the run of the
  \<open>i\<close>-th test case (see \<open>timeout_hit\<close>).
\<close>

definition run_case :: "MultiIOTaskManager \<Rightarrow> (nat \<Rightarrow> nat \<Rightarrow> bool) \<Rightarrow> char list \<Rightarrow> nat \<Rightarrow> int list
     \<Rightarrow> (error + EvalResult) option" where
  "run_case m clock code i input_seq =
     evaluate code (Some input_seq) None (task_base (task m)) (Some (clock i))
       (Some (max_execution_steps m)) (require_correct_syntax m) False False"

fun score_cases ::
  "MultiIOTaskManager \<Rightarrow> (nat \<Rightarrow> nat \<Rightarrow> bool) \<Rightarrow> char list \<Rightarrow> nat \<Rightarrow> (int list \<times> int list) list
     \<Rightarrow> real \<times> int list list \<times> string \<Rightarrow> (error + real \<times> int list list \<times> string) option"
where
  "score_cases m clock code i [] acc = Some (Inr acc)"
| "score_cases m clock code i ((input_seq, output_seq) # rest) acc =
     (case acc of (terminal_reward, results, reason0) \<Rightarrow>
      (case run_case m clock code i input_seq of
         None \<Rightarrow> None
       | Some (Inl e) \<Rightarrow> Some (Inl e)
       | Some (Inr eval_result) \<Rightarrow>
           (if \<not> success eval_result then
              Some (Inr (failure_reward m, [], failure_reason eval_result))
            else
              (case reward_fn m (output_list eval_result) output_seq (task_base (task m)) of
                 Inl e \<Rightarrow> Some (Inl e)
               | Inr v \<Rightarrow>
                   (let terminal_reward1 = terminal_reward + v;
                        acc1 =
                          (if output_list eval_result = output_seq then
                             (terminal_reward1 + correct_bonus m +
                                (if min_code_length m = max_code_length m then code_length_bonus m
                                 else code_length_bonus m *
                                        clipped_linear (real (length code)) (min_code_length m) 1.0
                                          (- time_penalty m) (0.0, 1.0)),
                              reason0)
                           else (terminal_reward1,
                                 (if reason0 = ''correct'' then ''wrong'' else reason0)))
                    in score_cases m clock code (i + 1) rest
                         (fst acc1, results @ [output_list eval_result], snd acc1))))))"

definition score_code :: "MultiIOTaskManager \<Rightarrow> (nat \<Rightarrow> nat \<Rightarrow> bool) \<Rightarrow> char list \<Rightarrow> (error + RewardInfo) option" where
  "score_code m clock code =
     (let io_seqs = make_io_set (task m)
      in case score_cases m clock code 0 io_seqs (0.0, [], ''correct'') of
           None \<Rightarrow> None
         | Some (Inl e) \<Rightarrow> Some (Inl e)
         | Some (Inr (terminal_reward, results, reason1)) \<Rightarrow>
             (if best_reward m = 0 then Some (Inl ZeroDivisionError)
              else Some (Inr \<lparr>episode_rewards =
                                 replicate (length code - 1) 0.0 @ [terminal_reward / best_reward m],
                               input_case = map fst io_seqs,
                               correct_output = map snd io_seqs,
                               code_output = results,
                               reason = reason1,
                               info_input_type = input_type m,
                               info_output_type = output_type m\<rparr>)))"

section \<open>ga_lib.py: crossover\<close>

text \<open>
  \<open>random.randrange(n)\<close>: it raises \<open>ValueError\<close> for an empty range.  The random source is
  an input of the model, a natural number \<open>u\<close>, and the value drawn is \<open>u mod n\<close>, so that
  every position below \<open>n\<close> can be drawn.
\<close>

definition randrange :: "nat \<Rightarrow> nat \<Rightarrow> error + nat" where
  "randrange u n = (if n = 0 then Inl ValueError else Inr (u mod n))"

text \<open>
  \<open>crossover\<close>.  An \<open>Individual\<close> is a list (of tokens) with an unset fitness; the model
  returns the two lists.
\<close>

definition crossover :: "nat \<Rightarrow> 'a list \<Rightarrow> 'a list \<Rightarrow> error + 'a list \<times> 'a list" where
  "crossover u parent1 parent2 =
     (case (if length parent1 > length parent2 then (parent1, parent2) else (parent2, parent1)) of
        (max_parent, min_parent) \<Rightarrow>
          (case randrange u (length max_parent) of
             Inl e \<Rightarrow> Inl e
           | Inr pos \<Rightarrow>
               (if pos \<ge> length min_parent then
                  Inr (take pos max_parent, min_parent @ drop pos max_parent)
                else
                  Inr (take pos max_parent @ drop pos min_parent,
                       take pos min_parent @ drop pos max_parent))))"

section \<open>results_lib.py: the results store\<close>

text \<open>
  A results file holds one dictionary per line.  The model keeps a dictionary as the list
  of its items, with integer values (the only value that the code reads is the integer
  \<open>max_local_repetitions\<close>), and a results file as the list of the dictionaries that
  \<open>ast.literal_eval\<close> yields for its lines.  The file system is a map from the file names
  of the log directory to these lists; a directory listing is a list of file names.
\<close>

type_synonym metrics = "(string \<times> int) list"

record ShardStats =
  num_local_reps_completed :: nat
  max_local_reps :: int
  finished :: bool

definition ge_non_zero :: "int \<Rightarrow> int \<Rightarrow> bool" where
  "ge_non_zero a b = (a \<ge> b \<and> b > 0)"

text \<open>Python's \<open>s.rfind(c)\<close>, slices \<open>s[a:b]\<close>, \<open>s.lower()\<close> and \<open>int(s)\<close>.\<close>

fun rfind_from :: "char \<Rightarrow> string \<Rightarrow> nat \<Rightarrow> int \<Rightarrow> int" where
  "rfind_from c [] i found = found"
| "rfind_from c (x # xs) i found = rfind_from c xs (i + 1) (if x = c then int i else found)"

definition rfind :: "char \<Rightarrow> string \<Rightarrow> int" where
  "rfind c s = rfind_from c s 0 (- 1)"

definition slice_index :: "nat \<Rightarrow> int \<Rightarrow> nat" where
  "slice_index len i = (if i < 0 then nat (max 0 (int len + i)) else min (nat i) len)"

definition slice :: "'a list \<Rightarrow> int \<Rightarrow> int \<Rightarrow> 'a list" where
  "slice s a b =
     (let lo = slice_index (length s) a; hi = slice_index (length s) b
      in take (hi - lo) (drop lo s))"

definition slice_from :: "'a list \<Rightarrow> int \<Rightarrow> 'a list" where
  "slice_from s a = drop (slice_index (length s) a) s"

definition lower_char :: "char \<Rightarrow> char" where
  "lower_char c =
     (if (of_char c :: nat) \<ge> 65 \<and> (of_char c :: nat) \<le> 90 then char_of (of_char c + 32 :: nat)
      else c)"

definition is_digit :: "char \<Rightarrow> bool" where
  "is_digit c = ((of_char c :: nat) \<ge> 48 \<and> (of_char c :: nat) \<le> 57)"

text \<open>
  \<open>int(s)\<close> for a string of decimal digits, \<open>ValueError\<close> otherwise.  (Python also
  accepts a sign and surrounding white space; such strings do not occur here, as
  \<open>get_shard_id\<close> is only applied to names that match \<open>search_regex\<close>.)
\<close>

definition int_of_string :: "string \<Rightarrow> error + nat" where
  "int_of_string s =
     (if s \<noteq> [] \<and> list_all is_digit s
      then Inr (foldl (\<lambda>n c. 10 * n + (of_char c - 48)) 0 s)
      else Inl ValueError)"

definition get_shard_id :: "string \<Rightarrow> error + nat" where
  "get_shard_id file_name =
     (if map lower_char (slice_from file_name (- 4)) \<noteq> ''.txt'' then Inl AssertionError
      else int_of_string (slice file_name (rfind (CHR ''_'') file_name + 1) (- 4)))"

text \<open>
  \<open>re.search(search_regex, fname)\<close> for
  \<open>search_regex = r'^experiment_results_([0-9])+\.txt$'\<close>: the prefix, one or more digits
  and \<open>.txt\<close> at the end of the name, where \<open>$\<close> also matches before a final newline.
\<close>

fun strip_prefix :: "'a list \<Rightarrow> 'a list \<Rightarrow> 'a list option" where
  "strip_prefix [] ys = Some ys"
| "strip_prefix (x # xs) [] = None"
| "strip_prefix (x # xs) (y # ys) = (if x = y then strip_prefix xs ys else None)"

definition search_regex_matches :: "string \<Rightarrow> bool" where
  "search_regex_matches fname =
     (case strip_prefix ''experiment_results_'' fname of
        None \<Rightarrow> False
      | Some rest \<Rightarrow>
          takeWhile is_digit rest \<noteq> [] \<and>
          (dropWhile is_digit rest = ''.txt'' \<or>
           dropWhile is_digit rest = ''.txt'' @ [CHR 0x0A]))"

text \<open>\<open>_read_shard\<close>: a file that does not exist reads as the empty list.\<close>

definition read_shard :: "(string \<rightharpoonup> metrics list) \<Rightarrow> string \<Rightarrow> metrics list" where
  "read_shard files results_file = (case files results_file of None \<Rightarrow> [] | Some rs \<Rightarrow> rs)"

text \<open>\<open>_get_max_local_reps\<close>; \<open>r['max_local_repetitions']\<close> raises \<open>KeyError\<close>.\<close>

fun max_local_repetitions_of :: "metrics list \<Rightarrow> error + int list" where
  "max_local_repetitions_of [] = Inr []"
| "max_local_repetitions_of (r # rs) =
     (case map_of r ''max_local_repetitions'' of
        None \<Rightarrow> Inl KeyError
      | Some n \<Rightarrow>
          (case max_local_repetitions_of rs of Inl e \<Rightarrow> Inl e | Inr ns \<Rightarrow> Inr (n # ns)))"

definition get_max_local_reps :: "metrics list \<Rightarrow> error + int" where
  "get_max_local_reps shard_results =
     (case max_local_repetitions_of shard_results of
        Inl e \<Rightarrow> Inl e
      | Inr mlrs \<Rightarrow>
          (if mlrs = [] then Inr 0
           else if list_all (\<lambda>n. n = hd mlrs) (tl mlrs) then Inr (hd mlrs)
           else Inl AssertionError))"

text \<open>
  The dictionary \<open>shard_ids\<close> of \<open>read_all\<close>, built from the listing in its order: a later
  file name replaces an earlier one with the same shard id.
\<close>

fun shard_ids_of :: "string list \<Rightarrow> (nat \<rightharpoonup> string) \<Rightarrow> error + (nat \<rightharpoonup> string)" where
  "shard_ids_of [] ids = Inr ids"
| "shard_ids_of (fname # rest) ids =
     (if search_regex_matches fname then
        (case get_shard_id fname of
           Inl e \<Rightarrow> Inl e
         | Inr i \<Rightarrow> shard_ids_of rest (ids(i \<mapsto> fname)))
      else shard_ids_of rest ids)"

fun shard_stats_of :: "metrics list list \<Rightarrow> error + ShardStats list" where
  "shard_stats_of [] = Inr []"
| "shard_stats_of (shard_results # rest) =
     (case get_max_local_reps shard_results of
        Inl e \<Rightarrow> Inl e
      | Inr mlr \<Rightarrow>
          (case shard_stats_of rest of
             Inl e \<Rightarrow> Inl e
           | Inr stats \<Rightarrow>
               Inr (\<lparr>num_local_reps_completed = length shard_results, max_local_reps = mlr,
                      finished = ge_non_zero (int (length shard_results)) mlr\<rparr> # stats)))"

text \<open>
  \<open>Results.read_all(num_shards)\<close> for a given \<open>num_shards\<close> (the branch for
  \<open>num_shards=None\<close> iterates over a dictionary in its hash order and is not modelled).
  \<open>listing\<close> is what \<open>ListDirectory(log_dir)\<close> returns, \<open>None\<close> when it raises
  \<open>NotFoundError\<close>; in that case the second component of the source is a list of
  \<open>num_shards\<close> empty lists, not of \<open>ShardStats\<close>, which is \<open>Inl num_shards\<close> here.
\<close>

definition read_all ::
  "(string \<rightharpoonup> metrics list) \<Rightarrow> string list option \<Rightarrow> nat
     \<Rightarrow> error + metrics list \<times> (nat + ShardStats list)"
where
  "read_all files listing num_shards =
     (case listing of
        None \<Rightarrow> Inr ([], Inl num_shards)
      | Some all_children \<Rightarrow>
          (case shard_ids_of all_children Map.empty of
             Inl e \<Rightarrow> Inl e
           | Inr shard_ids \<Rightarrow>
               (let results_per_shard =
                      map (\<lambda>shard_id. case shard_ids shard_id of
                                         Some results_file \<Rightarrow> read_shard files results_file
                                       | None \<Rightarrow> [])
                          [0 ..< num_shards]
                in case shard_stats_of results_per_shard of
                     Inl e \<Rightarrow> Inl e
                   | Inr stats \<Rightarrow> Inr (concat results_per_shard, Inr stats))))"

text \<open>
  For the statement of what \<open>read_all\<close> returns: the discovered file of a shard id is the
  last name of the listing that matches \<open>search_regex\<close> and has this id, and the entries
  of a shard are the contents of its discovered file (none when there is no such file).
\<close>

definition discovered :: "string list \<Rightarrow> nat \<Rightarrow> string option" where
  "discovered all_children shard_id =
     (case filter (\<lambda>f. search_regex_matches f \<and> get_shard_id f = Inr shard_id) all_children of
        [] \<Rightarrow> None
      | fs \<Rightarrow> Some (last fs))"

definition shard_entries :: "(string \<rightharpoonup> metrics list) \<Rightarrow> string list \<Rightarrow> nat \<Rightarrow> metrics list" where
  "shard_entries files all_children shard_id =
     (case discovered all_children shard_id of
        None \<Rightarrow> []
      | Some results_file \<Rightarrow> read_shard files results_file)"

text \<open>A directory with two shards, each with one entry.\<close>

definition demo_files :: "string \<rightharpoonup> metrics list" where
  "demo_files =
     [''experiment_results_0.txt'' \<mapsto> [[(''max_local_repetitions'', 1), (''npe'', 5)]],
      ''experiment_results_1.txt'' \<mapsto> [[(''max_local_repetitions'', 1), (''npe'', 7)]]]"

definition demo_listing :: "string list" where
  "demo_listing = [''experiment_results_0.txt'', ''experiment_results_1.txt'']"

section \<open>utils.py: the roulette wheel\<close>

text \<open>
  The attributes of a \<open>RouletteWheel\<close>.  Weights are floats, modelled as reals.
  \<open>keys_to_weights\<close> exists in unique mode only; it is the empty map otherwise.  A save
  file is modelled by the sequence of the \<open>(obj, weight, key)\<close> records pickled into it,
  and the disk by a map from file names to these sequences.
\<close>

record ('o, 'k) RouletteWheel =
  unique_mode :: bool
  objects :: "'o list"
  weights :: "real list"
  partial_sums :: "real list"
  keys_to_weights :: "'k \<rightharpoonup> real"
  save_file :: "string option"
  save_to_disk_buffer :: "('o \<times> real \<times> 'k option) list"

definition total_weight :: "('o, 'k) RouletteWheel \<Rightarrow> real" where
  "total_weight self = (if partial_sums self \<noteq> [] then last (partial_sums self) else 0.0)"

text \<open>\<open>RouletteWheel.add\<close>: the new state and the value returned, or the exception.\<close>

definition append_entry ::
  "('o, 'k) RouletteWheel \<Rightarrow> 'o \<Rightarrow> real \<Rightarrow> 'k option \<Rightarrow> ('o, 'k) RouletteWheel" where
  "append_entry self obj weight key =
     self\<lparr>objects := objects self @ [obj],
          weights := weights self @ [weight],
          partial_sums := partial_sums self @ [total_weight self + weight],
          save_to_disk_buffer :=
            (if save_file self \<noteq> None then save_to_disk_buffer self @ [(obj, weight, key)]
             else save_to_disk_buffer self)\<rparr>"

definition RouletteWheel_add ::
  "('o, 'k) RouletteWheel \<Rightarrow> 'o \<Rightarrow> real \<Rightarrow> 'k option \<Rightarrow> error + bool \<times> ('o, 'k) RouletteWheel" where
  "RouletteWheel_add self obj weight key =
     (if weight < 0 then Inl ValueError
      else if unique_mode self then
        (case key of
           None \<Rightarrow> Inl ValueError
         | Some k \<Rightarrow>
             (if k \<in> dom (keys_to_weights self) then Inr (False, self)
              else Inr (True,
                     append_entry (self\<lparr>keys_to_weights := (keys_to_weights self)(k \<mapsto> weight)\<rparr>)
                       obj weight key)))
      else if key \<noteq> None then Inl ValueError
      else Inr (True, append_entry self obj weight key))"

text \<open>
  \<open>RouletteWheel.__init__\<close>: the loop that unpickles the records of the save file and
  adds them, then the constructor.
\<close>

fun load_records ::
  "('o, 'k) RouletteWheel \<Rightarrow> ('o \<times> real \<times> 'k option) list \<Rightarrow> error + ('o, 'k) RouletteWheel" where
  "load_records self [] = Inr self"
| "load_records self ((obj, weight, key) # rest) =
     (case RouletteWheel_add self obj weight key of
        Inl e \<Rightarrow> Inl e
      | Inr (added, self1) \<Rightarrow> load_records self1 rest)"

definition RouletteWheel_init ::
  "bool \<Rightarrow> string option \<Rightarrow> (string \<rightharpoonup> ('o \<times> real \<times> 'k option) list)
     \<Rightarrow> error + ('o, 'k) RouletteWheel" where
  "RouletteWheel_init um file disk =
     (let self = \<lparr>unique_mode = um, objects = [], weights = [], partial_sums = [],
                   keys_to_weights = Map.empty, save_file = file, save_to_disk_buffer = []\<rparr>
      in case file of
           None \<Rightarrow> Inr self
         | Some f \<Rightarrow>
             (case disk f of
                None \<Rightarrow> Inr self
              | Some records \<Rightarrow>
                  (case load_records self records of
                     Inl e \<Rightarrow> Inl e
                   | Inr self1 \<Rightarrow> Inr (self1\<lparr>save_to_disk_buffer := []\<rparr>))))"




text \<open>
  Two wheels hold the same entries: mode, objects, weights, partial sums and keys agree.
  A wheel is in step with the disk when loading the records of its save file followed by
  the records of its buffer into an empty wheel gives a wheel with the same entries.
\<close>

definition same_entries :: "('o, 'k) RouletteWheel \<Rightarrow> ('o, 'k) RouletteWheel \<Rightarrow> bool" where
  "same_entries a b =
     (unique_mode a = unique_mode b \<and> objects a = objects b \<and> weights a = weights b
      \<and> partial_sums a = partial_sums b \<and> keys_to_weights a = keys_to_weights b)"


section \<open>utils.py: the max-unique priority queue\<close>

text \<open>
  An \<open>MPQItemContainer\<close> is the triple of its score, its item and its extra data; its
  \<open>__cmp__\<close> compares scores, so \<open>x < y\<close> on containers, the comparison \<open>heapq\<close> makes,
  is \<open>cmp_lt\<close>.  Scores are of any linearly ordered type.
\<close>

definition cmp_lt :: "('s::linorder) \<times> 'b \<Rightarrow> 's \<times> 'b \<Rightarrow> bool" where
  "cmp_lt x y = (fst x < fst y)"

text \<open>
  The functions of the library module \<open>heapq\<close> that the queue calls, after the Python
  source of the module: \<open>_siftdown\<close>, \<open>_siftup\<close>, \<open>heappush\<close> and \<open>heappushpop\<close>.  They
  work on a list; every index they read is inside the list when \<open>pos < len(heap)\<close>.
\<close>

function siftdown_loop :: "(('s::linorder) \<times> 'b) list \<Rightarrow> nat \<Rightarrow> nat \<Rightarrow> 's \<times> 'b \<Rightarrow> ('s \<times> 'b) list" where
  "siftdown_loop heap0 startpos pos newitem =
     (if pos > startpos then
        (let parentpos = (pos - 1) div 2;
             parent = heap0 ! parentpos
         in if cmp_lt newitem parent
            then siftdown_loop (heap0[pos := parent]) startpos parentpos newitem
            else heap0[pos := newitem])
      else heap0[pos := newitem])"
  by pat_completeness auto
termination
  by (relation "measure (\<lambda>(heap0, startpos, pos, newitem). pos)") auto

declare siftdown_loop.simps [simp del]

definition siftdown :: "(('s::linorder) \<times> 'b) list \<Rightarrow> nat \<Rightarrow> nat \<Rightarrow> ('s \<times> 'b) list" where
  "siftdown heap0 startpos pos = siftdown_loop heap0 startpos pos (heap0 ! pos)"

function siftup_loop :: "(('s::linorder) \<times> 'b) list \<Rightarrow> nat \<Rightarrow> nat \<Rightarrow> ('s \<times> 'b) list \<times> nat" where
  "siftup_loop heap0 endpos pos =
     (let childpos = 2 * pos + 1
      in if childpos < endpos then
           (let rightpos = childpos + 1;
                childpos1 = (if rightpos < endpos \<and> \<not> cmp_lt (heap0 ! childpos) (heap0 ! rightpos)
                             then rightpos else childpos)
            in siftup_loop (heap0[pos := heap0 ! childpos1]) endpos childpos1)
         else (heap0, pos))"
  by pat_completeness auto
termination
  by (relation "measure (\<lambda>(heap0, endpos, pos). endpos - pos)") (auto simp: Let_def)

declare siftup_loop.simps [simp del]

definition siftup :: "(('s::linorder) \<times> 'b) list \<Rightarrow> nat \<Rightarrow> ('s \<times> 'b) list" where
  "siftup heap0 pos =
     (let endpos = length heap0;
          startpos = pos;
          newitem = heap0 ! pos
      in case siftup_loop heap0 endpos pos of
           (heap1, pos1) \<Rightarrow> siftdown (heap1[pos1 := newitem]) startpos pos1)"

definition heappush :: "(('s::linorder) \<times> 'b) list \<Rightarrow> 's \<times> 'b \<Rightarrow> ('s \<times> 'b) list" where
  "heappush heap0 item = siftdown (heap0 @ [item]) 0 (length (heap0 @ [item]) - 1)"

text \<open>\<open>heappushpop\<close> returns the item popped and the new heap.\<close>

definition heappushpop :: "(('s::linorder) \<times> 'b) list \<Rightarrow> 's \<times> 'b \<Rightarrow> ('s \<times> 'b) \<times> ('s \<times> 'b) list" where
  "heappushpop heap0 item =
     (if heap0 \<noteq> [] \<and> cmp_lt (heap0 ! 0) item
      then (heap0 ! 0, siftup (heap0[0 := item]) 0)
      else (item, heap0))"

record ('s, 'i, 'e) MaxUniquePriorityQueue =
  capacity :: nat
  heap :: "('s \<times> 'i \<times> 'e option) list"
  unique_items :: "'i set"

definition MaxUniquePriorityQueue_init :: "nat \<Rightarrow> ('s, 'i, 'e) MaxUniquePriorityQueue" where
  "MaxUniquePriorityQueue_init c = \<lparr>capacity = c, heap = [], unique_items = {}\<rparr>"

text \<open>
  \<open>MaxUniquePriorityQueue.push\<close>.  \<open>set.remove\<close> raises \<open>KeyError\<close> when the element is
  not in the set.
\<close>

definition push ::
  "(('s::linorder), 'i, 'e) MaxUniquePriorityQueue \<Rightarrow> 's \<Rightarrow> 'i \<Rightarrow> 'e option
     \<Rightarrow> error + ('s, 'i, 'e) MaxUniquePriorityQueue" where
  "push self score item extra_data =
     (if item \<in> unique_items self then Inr self
      else if length (heap self) \<ge> capacity self then
        (case heappushpop (heap self) (score, item, extra_data) of
           ((popped_score, popped_item, popped_extra), heap1) \<Rightarrow>
             (let unique_items1 = insert item (unique_items self)
              in if popped_item \<in> unique_items1
                 then Inr (self\<lparr>heap := heap1, unique_items := unique_items1 - {popped_item}\<rparr>)
                 else Inl KeyError))
      else Inr (self\<lparr>heap := heappush (heap self) (score, item, extra_data),
                     unique_items := insert item (unique_items self)\<rparr>))"

text \<open>A sequence of \<open>push\<close> calls, each with its score, item and extra data.\<close>

fun push_all ::
  "(('s::linorder), 'i, 'e) MaxUniquePriorityQueue \<Rightarrow> ('s \<times> 'i \<times> 'e option) list
     \<Rightarrow> error + ('s, 'i, 'e) MaxUniquePriorityQueue" where
  "push_all self [] = Inr self"
| "push_all self ((score, item, extra_data) # rest) =
     (case push self score item extra_data of
        Inl e \<Rightarrow> Inl e
      | Inr self1 \<Rightarrow> push_all self1 rest)"

text \<open>
  The heap property of a list, and the property with one position left out: no edge of
  the tree at \<open>p\<close> is constrained, but the parent of \<open>p\<close> is below the children of \<open>p\<close>.
\<close>

definition is_heap :: "(('s::linorder) \<times> 'b) list \<Rightarrow> bool" where
  "is_heap h = (\<forall>i. 0 < i \<and> i < length h \<longrightarrow> fst (h ! ((i - 1) div 2)) \<le> fst (h ! i))"

definition heap_except :: "(('s::linorder) \<times> 'b) list \<Rightarrow> nat \<Rightarrow> bool" where
  "heap_except h p =
     ((\<forall>i. 0 < i \<and> i < length h \<and> i \<noteq> p \<and> (i - 1) div 2 \<noteq> p
            \<longrightarrow> fst (h ! ((i - 1) div 2)) \<le> fst (h ! i))
      \<and> (\<forall>i. 0 < p \<and> i < length h \<and> 0 < i \<and> (i - 1) div 2 = p
            \<longrightarrow> fst (h ! ((p - 1) div 2)) \<le> fst (h ! i)))"

text \<open>
  The invariant of the queue after the pushes \<open>pushed\<close>: the heap is a heap of
  \<open>min(capacity, number pushed)\<close> containers, all of them pushed; the side set is the set
  of the items of the heap; and no container that was pushed and is not kept has a
  greater score than a kept one.
\<close>

definition item_of :: "'s \<times> 'i \<times> 'e option \<Rightarrow> 'i" where
  "item_of x = fst (snd x)"

definition queue_inv ::
  "('s \<times> 'i \<times> 'e option) list \<Rightarrow> (('s::linorder), 'i, 'e) MaxUniquePriorityQueue \<Rightarrow> bool" where
  "queue_inv pushed self =
     (is_heap (heap self)
      \<and> length (heap self) = min (capacity self) (length pushed)
      \<and> mset (heap self) \<subseteq># mset pushed
      \<and> unique_items self = item_of ` set (heap self)
      \<and> (\<forall>x \<in># mset (heap self). \<forall>y \<in># mset pushed - mset (heap self). fst y \<le> fst x))"

section \<open>Concrete inputs\<close>

text \<open>A task with two test cases, and the manager that the constructor builds for it
  with \<open>max_execution_steps = 3\<close>; they serve as inputs of concrete runs.\<close>

definition demo_task :: Task where
  "demo_task = \<lparr>task_base = 5, make_io_set = [([], [1]), ([], [1, 2])],
                task_input_type = None, task_output_type = None\<rparr>"

definition demo_manager :: MultiIOTaskManager where
  "demo_manager = \<lparr>task = demo_task, max_code_length = 32, min_code_length = 0,
     max_execution_steps = 3, require_correct_syntax = False, correct_bonus = 1,
     code_length_bonus = 1, failure_reward = - 2, time_penalty = 1 / 32,
     reward_fn = absolute_distance_reward, input_type = IOType_integer,
     output_type = IOType_integer, best_reward = 6, good_reward = 4.5\<rparr>"

definition no_clock :: "nat \<Rightarrow> nat \<Rightarrow> bool" where
  "no_clock i k = False"





section \<open>Properties of the interpreter\<close>

subsection \<open>The jump map has an entry for every brace\<close>

lemma set_butlast_last: "xs \<noteq> [] \<Longrightarrow> set xs = insert (last xs) (set (butlast xs))"
  by (induction xs) auto

lemma covered_Cons:
  assumes h0: "c = CHR ''['' \<or> c = CHR '']'' \<longrightarrow> pos \<in> D"
    and b: "\<forall>i < length rest. rest ! i = CHR ''['' \<or> rest ! i = CHR '']'' \<longrightarrow> Suc pos + i \<in> D"
  shows "\<forall>i < length (c # rest). (c # rest) ! i = CHR ''['' \<or> (c # rest) ! i = CHR '']'' \<longrightarrow> pos + i \<in> D"
proof (intro allI impI)
  fix i assume i: "i < length (c # rest)" and br: "(c # rest) ! i = CHR ''['' \<or> (c # rest) ! i = CHR '']''"
  show "pos + i \<in> D"
  proof (cases i)
    case 0
    with br h0 show ?thesis by simp
  next
    case (Suc j)
    with i br have "j < length rest" "rest ! j = CHR ''['' \<or> rest ! j = CHR '']''" by simp_all
    with b have "Suc pos + j \<in> D" by blast
    with Suc show ?thesis by simp
  qed
qed

lemma scan_covered:
  "buildbracemap_scan code pos stack bm cs = (stack', bm', cs') \<Longrightarrow>
     dom bm \<union> set stack \<subseteq> dom bm' \<union> set stack' \<and>
     (\<forall>i < length code. code ! i = CHR ''['' \<or> code ! i = CHR '']'' \<longrightarrow>
         pos + i \<in> dom bm' \<union> set stack')"
proof (induction code arbitrary: pos stack bm cs)
  case Nil
  then show ?case by simp
next
  case (Cons c rest pos stack bm cs)
  let ?D = "dom bm' \<union> set stack'"
  let ?R = "\<forall>i < length rest. rest ! i = CHR ''['' \<or> rest ! i = CHR '']'' \<longrightarrow> Suc pos + i \<in> ?D"
  consider (opn) "c = CHR ''[''" | (cls0) "c = CHR '']''" "stack = []"
    | (cls1) "c = CHR '']''" "stack \<noteq> []" | (other) "c \<noteq> CHR ''[''" "c \<noteq> CHR '']''"
    by blast
  then have "dom bm \<union> set stack \<subseteq> ?D \<and> (c = CHR ''['' \<or> c = CHR '']'' \<longrightarrow> pos \<in> ?D) \<and>
     ?R"
  proof cases
    case opn
    with Cons.prems have "buildbracemap_scan rest (Suc pos) (stack @ [pos]) bm cs = (stack', bm', cs')"
      by simp
    from Cons.IH[OF this] have "dom bm \<union> set (stack @ [pos]) \<subseteq> ?D \<and> ?R" .
    then show ?thesis by simp
  next
    case cls0
    with Cons.prems have "buildbracemap_scan rest (Suc pos) [] (bm(pos \<mapsto> pos)) False = (stack', bm', cs')"
      by simp
    from Cons.IH[OF this] have "dom (bm(pos \<mapsto> pos)) \<union> set [] \<subseteq> ?D \<and> ?R" .
    with cls0 show ?thesis by simp
  next
    case cls1
    with Cons.prems have "buildbracemap_scan rest (Suc pos) (butlast stack)
        (bm(last stack \<mapsto> pos, pos \<mapsto> last stack)) cs = (stack', bm', cs')"
      by (simp add: Let_def)
    from Cons.IH[OF this]
    have "dom (bm(last stack \<mapsto> pos, pos \<mapsto> last stack)) \<union> set (butlast stack) \<subseteq> ?D \<and> ?R" .
    with set_butlast_last[OF cls1(2)] show ?thesis by simp
  next
    case other
    with Cons.prems have "buildbracemap_scan rest (Suc pos) stack bm cs = (stack', bm', cs')"
      by simp
    from Cons.IH[OF this] have "dom bm \<union> set stack \<subseteq> ?D \<and> ?R" .
    with other show ?thesis by simp
  qed
  then show ?case using covered_Cons[of c pos ?D rest] by blast
qed

lemma dom_map_unmatched: "dom (map_unmatched bm stack) = dom bm \<union> set stack"
  by (induction stack arbitrary: bm) auto

lemma buildbracemap_covered:
  assumes "buildbracemap code = (bm, cs)"
  shows "brackets_covered code bm"
proof -
  obtain stack' bm' cs' where s: "buildbracemap_scan code 0 [] Map.empty True = (stack', bm', cs')"
    by (metis prod_cases3)
  from scan_covered[OF s]
  have cov: "\<forall>i < length code. code ! i = CHR ''['' \<or> code ! i = CHR '']'' \<longrightarrow> i \<in> dom bm' \<union> set stack'"
    by simp
  have "bm = (if stack' \<noteq> [] then map_unmatched bm' stack' else bm')"
    using assms s by (simp add: buildbracemap_def split: if_splits)
  then have "dom bm = dom bm' \<union> set stack'"
    by (simp add: dom_map_unmatched)
  with cov show ?thesis
    unfolding brackets_covered_def by blast
qed



lemma exec_right: "exec_command bm base (CHR ''>'') st =
   Inr (st\<lparr>cellptr := cellptr st + 1,
           cells := (if cellptr st + 1 = length (cells st) then cells st @ [null_value] else cells st)\<rparr>)"
  by (simp add: exec_command_def Let_def)

lemma exec_left: "exec_command bm base (CHR ''<'') st =
   Inr (st\<lparr>cellptr := cellptr st - 1\<rparr>)"
  by (simp add: exec_command_def)

lemma exec_plus: "exec_command bm base (CHR ''+'') st =
   (if cellptr st < length (cells st) then
           Inr (st\<lparr>cells := (cells st)[cellptr st :=
                  (if cells st ! cellptr st < base - 1 then cells st ! cellptr st + 1 else 0)]\<rparr>)
         else Inl IndexError)"
  by (simp add: exec_command_def)

lemma exec_minus: "exec_command bm base (CHR ''-'') st =
   (if cellptr st < length (cells st) then
           Inr (st\<lparr>cells := (cells st)[cellptr st :=
                  (if cells st ! cellptr st > 0 then cells st ! cellptr st - 1 else base - 1)]\<rparr>)
         else Inl IndexError)"
  by (simp add: exec_command_def)

lemma exec_open: "exec_command bm base (CHR ''['') st =
   (if cellptr st < length (cells st) then
           (if cells st ! cellptr st = 0 then
              (case bm (codeptr st) of
                 None \<Rightarrow> Inl KeyError
               | Some j \<Rightarrow> Inr (st\<lparr>codeptr := j\<rparr>))
            else Inr st)
         else Inl IndexError)"
  by (simp add: exec_command_def)

lemma exec_close: "exec_command bm base (CHR '']'') st =
   (if cellptr st < length (cells st) then
           (if cells st ! cellptr st \<noteq> 0 then
              (case bm (codeptr st) of
                 None \<Rightarrow> Inl KeyError
               | Some j \<Rightarrow> Inr (st\<lparr>codeptr := j\<rparr>))
            else Inr st)
         else Inl IndexError)"
  by (simp add: exec_command_def)

lemma exec_dot: "exec_command bm base (CHR ''.'') st =
   (if cellptr st < length (cells st) then
           Inr (st\<lparr>output_buffer := output_buffer st @ [cells st ! cellptr st]\<rparr>)
         else Inl IndexError)"
  by (simp add: exec_command_def)

lemma exec_comma: "exec_command bm base (CHR '','') st =
   (if cellptr st < length (cells st) then
      Inr (st\<lparr>cells := (cells st)[cellptr st := peek (input_iter st) null_value],
              input_iter := tl (input_iter st)\<rparr>)
    else Inl IndexError)"
  by (simp add: exec_command_def next_or_def peek_def split: list.splits)

lemma exec_other: "c \<notin> set CHARS \<Longrightarrow> exec_command bm base c st = Inr st"
  by (simp add: exec_command_def CHARS_def)

lemmas exec_simps = exec_right exec_left exec_plus exec_minus exec_open exec_close exec_dot exec_comma

lemma command_cases:
  obtains "c = CHR ''>''" | "c = CHR ''<''" | "c = CHR ''+''" | "c = CHR ''-''"
    | "c = CHR ''[''" | "c = CHR '']''" | "c = CHR ''.''" | "c = CHR '',''" | "c \<notin> set CHARS"
  unfolding CHARS_def by auto

lemma exec_command_nsteps:
  "exec_command bm base c st = Inr st' \<Longrightarrow> nsteps st' = nsteps st \<and> trace st' = trace st"
  by (cases c rule: command_cases) (auto simp: exec_simps exec_other split: if_splits option.splits)

lemma exec_command_output:
  "exec_command bm base c st = Inr st' \<Longrightarrow> prefix (output_buffer st) (output_buffer st')"
  by (cases c rule: command_cases) (auto simp: exec_simps exec_other split: if_splits option.splits)

lemma exec_command_total:
  assumes "wf_state st" and "c = CHR ''['' \<or> c = CHR '']'' \<longrightarrow> codeptr st \<in> dom bm"
  shows "\<exists>st'. exec_command bm base c st = Inr st' \<and> wf_state st'"
  using assms
  by (cases c rule: command_cases) (auto simp: exec_simps exec_other wf_state_def)

subsection \<open>One pass of the loop\<close>

lemma loop_body_nsteps:
  "loop_body code bm base dbg st = Inr st' \<Longrightarrow> nsteps st' = Suc (nsteps st)"
  by (auto simp: loop_body_def Let_def split: if_splits sum.splits dest!: exec_command_nsteps)

lemma loop_body_output:
  "loop_body code bm base dbg st = Inr st' \<Longrightarrow> prefix (output_buffer st) (output_buffer st')"
  by (auto simp: loop_body_def Let_def split: if_splits sum.splits dest!: exec_command_output)

lemma loop_body_trace_length:
  "loop_body code bm base dbg st = Inr st' \<Longrightarrow>
     length (trace st') = length (trace st) + (if dbg then 1 else 0)"
  by (auto simp: loop_body_def Let_def split: if_splits sum.splits dest!: exec_command_nsteps)

lemma loop_body_total:
  assumes "wf_state st" and "brackets_covered code bm" and "codeptr st < length code"
  shows "\<exists>st'. loop_body code bm base dbg st = Inr st' \<and> wf_state st'"
proof -
  let ?c = "code ! codeptr st"
  from assms(2,3) have cov: "?c = CHR ''['' \<or> ?c = CHR '']'' \<longrightarrow> codeptr st \<in> dom bm"
    by (simp add: brackets_covered_def)
  show ?thesis
  proof (cases dbg)
    case True
    let ?st1 = "st\<lparr>trace := trace st @ [ExecutionSnapshot (codeptr st) [?c] (cellptr st) (cells st ! cellptr st)
               (cells st) (peek (input_iter st) null_value) (output_buffer st)]\<rparr>"
    from assms(1) have "wf_state ?st1" by (simp add: wf_state_def)
    from exec_command_total[OF this, of ?c bm base] cov
    obtain st2 where "exec_command bm base ?c ?st1 = Inr st2" "wf_state st2" by auto
    with True assms(1) show ?thesis
      by (simp add: loop_body_def snapshot_def wf_state_def)
  next
    case False
    from exec_command_total[OF assms(1), of ?c bm base] cov
    obtain st2 where "exec_command bm base ?c st = Inr st2" "wf_state st2" by auto
    with False show ?thesis
      by (simp add: loop_body_def wf_state_def)
  qed
qed

text \<open>With a step limit the loop returns, and without an exception.\<close>

lemma while_loop_limited:
  assumes "brackets_covered code bm"
  shows "wf_state st \<Longrightarrow>
     \<exists>st' ok rsn. while_loop code bm base timeout (Some m) dbg st = Some (Inr (st', ok, rsn))
        \<and> wf_state st'"
proof (induction "nat (m - int (nsteps st))" arbitrary: st rule: less_induct)
  case less
  show ?case
  proof (cases "codeptr st < length code")
    case False
    with less.prems show ?thesis
      by (subst while_loop.simps) auto
  next
    case True
    from loop_body_total[OF less.prems assms True, of base dbg]
    obtain st1 where b: "loop_body code bm base dbg st = Inr st1" and wf1: "wf_state st1"
      by blast
    have n1: "nsteps st1 = Suc (nsteps st)" by (rule loop_body_nsteps[OF b])
    show ?thesis
    proof (cases "timeout_hit timeout (nsteps st1) \<or> max_steps_hit (Some m) (nsteps st1)")
      case True
      with \<open>codeptr st < length code\<close> b wf1 show ?thesis
        by (subst while_loop.simps) auto
    next
      case False
      then have "int (nsteps st1) < m" by (simp add: max_steps_hit_def)
      with n1 have "nat (m - int (nsteps st1)) < nat (m - int (nsteps st))" by simp
      from less.hyps[OF this wf1] False \<open>codeptr st < length code\<close> b
      show ?thesis
        by (subst while_loop.simps) simp
    qed
  qed
qed

text \<open>What the loop returns, read off its result (partial correctness).\<close>

lemma while_loop_result:
  "while_loop code bm base timeout max_steps dbg st = Some y \<Longrightarrow>
   y = Inr (st', ok, rsn) \<longrightarrow>
     (st' = st \<and> \<not> codeptr st < length code \<and> ok \<and> rsn = SUCCESS) \<or>
     (nsteps st < nsteps st' \<and>
       (if timeout_hit timeout (nsteps st') then \<not> ok \<and> rsn = TIMEOUT
        else if max_steps_hit max_steps (nsteps st') then \<not> ok \<and> rsn = STEP_LIMIT
        else ok \<and> rsn = SUCCESS \<and> \<not> codeptr st' < length code))"
proof (induction rule: while_loop.raw_induct[rotated, consumes 1])
  case (1 wl code bm base timeout max_steps dbg st y)
  show ?case
  proof (cases "codeptr st < length code")
    case False
    with 1(2) show ?thesis by auto
  next
    case True
    show ?thesis
    proof (cases "loop_body code bm base dbg st")
      case (Inl e)
      with True 1(2) show ?thesis by auto
    next
      case (Inr st1)
      note n1 = loop_body_nsteps[OF Inr]
      show ?thesis
      proof (cases "timeout_hit timeout (nsteps st1) \<or> max_steps_hit max_steps (nsteps st1)")
        case True
        with \<open>codeptr st < length code\<close> Inr 1(2) n1 show ?thesis
          by (auto split: if_splits)
      next
        case False
        with \<open>codeptr st < length code\<close> Inr 1(2)
        have "wl code bm base timeout max_steps dbg st1 = Some y" by simp
        from 1(1)[OF this] n1 False show ?thesis by auto
      qed
    qed
  qed
qed

lemma while_loop_invariant:
  assumes "while_loop code bm base timeout max_steps dbg st = Some y"
    and "I st" and "y = Inr (st', ok, rsn)"
    and "\<And>s s'. I s \<Longrightarrow> codeptr s < length code \<Longrightarrow> loop_body code bm base dbg s = Inr s' \<Longrightarrow> I s'"
  shows "I st'"
  using assms
proof (induction rule: while_loop.raw_induct[rotated, consumes 1])
  case (1 wl code bm base timeout max_steps dbg st y)
  show ?case
  proof (cases "codeptr st < length code")
    case False
    with 1(2,3,4) show ?thesis by auto
  next
    case True
    show ?thesis
    proof (cases "loop_body code bm base dbg st")
      case (Inl e)
      with True 1(2,4) show ?thesis by auto
    next
      case (Inr st1)
      from 1(5)[OF 1(3) True Inr] have i1: "I st1" .
      show ?thesis
      proof (cases "timeout_hit timeout (nsteps st1) \<or> max_steps_hit max_steps (nsteps st1)")
        case True
        with \<open>codeptr st < length code\<close> Inr 1(2,4) i1 show ?thesis
          by (auto split: if_splits)
      next
        case False
        with \<open>codeptr st < length code\<close> Inr 1(2)
        have "wl code bm base timeout max_steps dbg st1 = Some y" by simp
        from 1(1)[OF this i1 1(4) 1(5)] show ?thesis by auto
      qed
    qed
  qed
qed

subsection \<open>The loop as a whole\<close>

lemma while_loop_first_stop:
  assumes "while_loop code bm base timeout max_steps dbg st = Some y"
    and "y = Inr (st', ok, rsn)"
  shows "\<forall>k. nsteps st < k \<and> k < nsteps st' \<longrightarrow>
           \<not> timeout_hit timeout k \<and> \<not> max_steps_hit max_steps k"
  using assms
proof (induction rule: while_loop.raw_induct[rotated, consumes 1])
  case (1 wl code bm base timeout max_steps dbg st y)
  show ?case
  proof (cases "codeptr st < length code")
    case False
    with 1(2,3) show ?thesis by auto
  next
    case True
    show ?thesis
    proof (cases "loop_body code bm base dbg st")
      case (Inl e)
      with True 1(2,3) show ?thesis by auto
    next
      case (Inr st1)
      note n1 = loop_body_nsteps[OF Inr]
      show ?thesis
      proof (cases "timeout_hit timeout (nsteps st1) \<or> max_steps_hit max_steps (nsteps st1)")
        case True
        with \<open>codeptr st < length code\<close> Inr 1(2,3) n1 show ?thesis
          by (auto split: if_splits)
      next
        case False
        with \<open>codeptr st < length code\<close> Inr 1(2)
        have "wl code bm base timeout max_steps dbg st1 = Some y" by simp
        from 1(1)[OF this 1(3)] n1 False show ?thesis
          by (metis Suc_lessI)
      qed
    qed
  qed
qed

lemma while_loop_output:
  assumes "while_loop code bm base timeout max_steps dbg st = Some (Inr (st', ok, rsn))"
  shows "prefix (output_buffer st) (output_buffer st')"
proof (rule while_loop_invariant[OF assms, where I = "\<lambda>s. prefix (output_buffer st) (output_buffer s)"])
  show "prefix (output_buffer st) (output_buffer st)" by simp
  show "Inr (st', ok, rsn) = Inr (st', ok, rsn)" by simp
  fix s s' assume "prefix (output_buffer st) (output_buffer s)" "loop_body code bm base dbg s = Inr s'"
  then show "prefix (output_buffer st) (output_buffer s')"
    using loop_body_output prefix_order.trans by blast
qed

lemma while_loop_wf:
  assumes "while_loop code bm base timeout max_steps dbg st = Some (Inr (st', ok, rsn))"
    and "wf_state st" and "brackets_covered code bm"
  shows "wf_state st'"
proof (rule while_loop_invariant[OF assms(1), where I = wf_state])
  show "wf_state st" by fact
  show "Inr (st', ok, rsn) = Inr (st', ok, rsn)" by simp
  fix s s' assume "wf_state s" "codeptr s < length code" "loop_body code bm base dbg s = Inr s'"
  with loop_body_total[OF this(1) assms(3) this(2), of base dbg] show "wf_state s'"
    by auto
qed

lemma while_loop_no_exception:
  assumes "while_loop code bm base timeout max_steps dbg st = Some y"
    and "wf_state st" and "brackets_covered code bm"
  shows "\<exists>r. y = Inr r"
  using assms
proof (induction rule: while_loop.raw_induct[rotated, consumes 1])
  case (1 wl code bm base timeout max_steps dbg st y)
  show ?case
  proof (cases "codeptr st < length code")
    case False
    with 1(2) show ?thesis by auto
  next
    case True
    from loop_body_total[OF 1(3,4) True, of base dbg]
    obtain st1 where b: "loop_body code bm base dbg st = Inr st1" and wf1: "wf_state st1"
      by blast
    show ?thesis
    proof (cases "timeout_hit timeout (nsteps st1) \<or> max_steps_hit max_steps (nsteps st1)")
      case True
      with \<open>codeptr st < length code\<close> b 1(2) show ?thesis
        by (auto split: if_splits)
    next
      case False
      with \<open>codeptr st < length code\<close> b 1(2)
      have "wl code bm base timeout max_steps dbg st1 = Some y" by simp
      from 1(1)[OF this wf1 1(4)] show ?thesis .
    qed
  qed
qed

lemma while_loop_prefix:
  "while_loop code bm base None (Some n) dbg st = Some (Inr (s1, ok1, re1)) \<Longrightarrow>
   while_loop code bm base None (Some (n + 1)) dbg st = Some (Inr (s2, ok2, re2)) \<Longrightarrow>
   prefix (output_buffer s1) (output_buffer s2)"
proof (induction "nat (n + 1 - int (nsteps st))" arbitrary: st rule: less_induct)
  case less
  note r1 = less.prems(1) and r2 = less.prems(2)
  show ?case
  proof (cases "codeptr st < length code")
    case False
    with r1 r2 have "s1 = st" "s2 = st"
      by (subst (asm) while_loop.simps, simp)+
    then show ?thesis by simp
  next
    case True
    show ?thesis
    proof (cases "loop_body code bm base dbg st")
      case (Inl e)
      with True r1 show ?thesis by (subst (asm) while_loop.simps) simp
    next
      case (Inr st1)
      note n1 = loop_body_nsteps[OF Inr]
      have t: "\<not> timeout_hit None (nsteps st1)" by (simp add: timeout_hit_def)
      show ?thesis
      proof (cases "max_steps_hit (Some n) (nsteps st1)")
        case hit: True
        with True Inr t r1 have s1: "s1 = st1"
          by (subst (asm) while_loop.simps) simp
        show ?thesis
        proof (cases "max_steps_hit (Some (n + 1)) (nsteps st1)")
          case True
          with \<open>codeptr st < length code\<close> Inr t r2 have "s2 = st1"
            by (subst (asm) while_loop.simps) simp
          with s1 show ?thesis by simp
        next
          case False
          with \<open>codeptr st < length code\<close> Inr t r2
          have "while_loop code bm base None (Some (n + 1)) dbg st1 = Some (Inr (s2, ok2, re2))"
            by (subst (asm) while_loop.simps) simp
          from while_loop_output[OF this] s1 show ?thesis by simp
        qed
      next
        case nohit: False
        then have nohit': "\<not> max_steps_hit (Some (n + 1)) (nsteps st1)"
          by (simp add: max_steps_hit_def)
        from nohit True Inr t r1
        have a: "while_loop code bm base None (Some n) dbg st1 = Some (Inr (s1, ok1, re1))"
          by (subst (asm) while_loop.simps) simp
        from nohit' True Inr t r2
        have b: "while_loop code bm base None (Some (n + 1)) dbg st1 = Some (Inr (s2, ok2, re2))"
          by (subst (asm) while_loop.simps) simp
        from nohit' n1 have "nat (n + 1 - int (nsteps st1)) < nat (n + 1 - int (nsteps st))"
          by (simp add: max_steps_hit_def)
        from less.hyps[OF this a b] show ?thesis .
      qed
    qed
  qed
qed

lemma initial_state_wf: "wf_state (initial_state inp mem)"
  by (simp add: initial_state_def wf_state_def split: option.splits)

lemma finish_ok:
  "wf_state st \<Longrightarrow> \<exists>r. finish code om dbg (st, ok, rsn) = Inr r \<and> output_list r = output_buffer st
     \<and> success r = ok \<and> failure_reason r = rsn \<and> steps r = nsteps st
     \<and> memory r = (if om then Some (cells st) else None)"
  by (simp add: finish_def snapshot_def wf_state_def)

subsection \<open>Results of \<open>evaluate\<close>\<close>

lemma evaluate_unfold:
  assumes "buildbracemap code = (bm, cs)"
  shows "evaluate code inp mem base timeout max_steps rcs om dbg =
     (if rcs \<and> \<not> cs then
        Some (Inr \<lparr>output_list = [], success = False, failure_reason = SYNTAX_ERROR, steps = 0,
                   memory = (if om then Some [] else None),
                   program_trace = (if dbg then Some [] else None)\<rparr>)
      else
        (case while_loop code bm base timeout max_steps dbg (initial_state inp mem) of
           None \<Rightarrow> None
         | Some (Inl e) \<Rightarrow> Some (Inl e)
         | Some (Inr r) \<Rightarrow> Some (finish code om dbg r)))"
  using assms by (simp add: evaluate_def)

lemma evaluate_run:
  assumes bb: "buildbracemap code = (bm, cs)" and ns: "\<not> (rcs \<and> \<not> cs)"
    and ev: "evaluate code inp mem base timeout max_steps rcs om dbg = Some (Inr r)"
  shows "\<exists>st' ok rsn.
     while_loop code bm base timeout max_steps dbg (initial_state inp mem) = Some (Inr (st', ok, rsn))
     \<and> wf_state st' \<and> finish code om dbg (st', ok, rsn) = Inr r"
proof -
  from ev ns obtain q where w: "while_loop code bm base timeout max_steps dbg (initial_state inp mem) = Some (Inr q)"
      and f: "finish code om dbg q = Inr r"
    unfolding evaluate_unfold[OF bb] by (auto split: option.splits sum.splits)
  obtain st' ok rsn where q: "q = (st', ok, rsn)" by (cases q) auto
  from while_loop_wf[OF w[unfolded q] initial_state_wf buildbracemap_covered[OF bb]]
  have "wf_state st'" .
  with w f q show ?thesis by blast
qed

lemma evaluate_limited:
  "\<exists>r. evaluate code inp mem base timeout (Some n) rcs om dbg = Some (Inr r)"
proof -
  obtain bm cs where bb: "buildbracemap code = (bm, cs)" by (cases "buildbracemap code") auto
  show ?thesis
  proof (cases "rcs \<and> \<not> cs")
    case True
    then show ?thesis unfolding evaluate_unfold[OF bb] by simp
  next
    case False
    from while_loop_limited[OF buildbracemap_covered[OF bb] initial_state_wf, of base timeout n dbg inp mem]
    obtain st' ok rsn where w: "while_loop code bm base timeout (Some n) dbg (initial_state inp mem)
        = Some (Inr (st', ok, rsn))" and wf: "wf_state st'" by blast
    from finish_ok[OF wf, of code om dbg ok rsn] obtain r where "finish code om dbg (st', ok, rsn) = Inr r"
      by blast
    with w False show ?thesis unfolding evaluate_unfold[OF bb] by simp
  qed
qed

lemma evaluate_prefix_aux:
  assumes e1: "evaluate code inp mem base None (Some n) rcs om dbg = Some (Inr r1)"
    and e2: "evaluate code inp mem base None (Some (n + 1)) rcs om dbg = Some (Inr r2)"
  shows "prefix (output_list r1) (output_list r2)"
proof -
  obtain bm cs where bb: "buildbracemap code = (bm, cs)" by (cases "buildbracemap code") auto
  show ?thesis
  proof (cases "rcs \<and> \<not> cs")
    case True
    with e1 e2 show ?thesis unfolding evaluate_unfold[OF bb] by auto
  next
    case False
    from evaluate_run[OF bb False e1] obtain s1 ok1 re1 where
      w1: "while_loop code bm base None (Some n) dbg (initial_state inp mem) = Some (Inr (s1, ok1, re1))"
      and wf1: "wf_state s1" and f1: "finish code om dbg (s1, ok1, re1) = Inr r1" by blast
    from evaluate_run[OF bb False e2] obtain s2 ok2 re2 where
      w2: "while_loop code bm base None (Some (n + 1)) dbg (initial_state inp mem) = Some (Inr (s2, ok2, re2))"
      and wf2: "wf_state s2" and f2: "finish code om dbg (s2, ok2, re2) = Inr r2" by blast
    from finish_ok[OF wf1, of code om dbg ok1 re1] f1 have o1: "output_list r1 = output_buffer s1" by auto
    from finish_ok[OF wf2, of code om dbg ok2 re2] f2 have o2: "output_list r2 = output_buffer s2" by auto
    from while_loop_prefix[OF w1 w2] o1 o2 show ?thesis by simp
  qed
qed

lemma evaluate_stop_order_aux:
  assumes ev: "evaluate code inp mem base timeout max_steps rcs om dbg = Some (Inr r)"
  shows "failure_reason r =
     (if rcs \<and> \<not> snd (buildbracemap code) then SYNTAX_ERROR
      else if steps r = 0 then SUCCESS
      else if timeout_hit timeout (steps r) then TIMEOUT
      else if max_steps_hit max_steps (steps r) then STEP_LIMIT
      else SUCCESS)
   \<and> (\<forall>k. 0 < k \<and> k < steps r \<longrightarrow> \<not> timeout_hit timeout k \<and> \<not> max_steps_hit max_steps k)"
proof -
  obtain bm cs where bb: "buildbracemap code = (bm, cs)" by (cases "buildbracemap code") auto
  show ?thesis
  proof (cases "rcs \<and> \<not> cs")
    case True
    with ev bb show ?thesis unfolding evaluate_unfold[OF bb] by auto
  next
    case False
    from evaluate_run[OF bb False ev] obtain st' ok rsn where
      w: "while_loop code bm base timeout max_steps dbg (initial_state inp mem) = Some (Inr (st', ok, rsn))"
      and wf: "wf_state st'" and f: "finish code om dbg (st', ok, rsn) = Inr r" by blast
    from finish_ok[OF wf, of code om dbg ok rsn] f
    have r: "failure_reason r = rsn" "steps r = nsteps st'" by auto
    have n0: "nsteps (initial_state inp mem) = 0" by (simp add: initial_state_def)
    from while_loop_result[OF w, of st' ok rsn] n0
    have a: "rsn = (if nsteps st' = 0 then SUCCESS
      else if timeout_hit timeout (nsteps st') then TIMEOUT
      else if max_steps_hit max_steps (nsteps st') then STEP_LIMIT
      else SUCCESS)"
      by (auto split: if_splits)
    from while_loop_first_stop[OF w refl] n0
    have b: "\<forall>k. 0 < k \<and> k < nsteps st' \<longrightarrow> \<not> timeout_hit timeout k \<and> \<not> max_steps_hit max_steps k"
      by simp
    from a b r False bb show ?thesis by auto
  qed
qed

subsection \<open>Steps and characters\<close>








subsection \<open>Cell values\<close>

lemma in_range_update:
  "in_range base xs \<Longrightarrow> 0 \<le> v \<Longrightarrow> v < base \<Longrightarrow> in_range base (xs[i := v])"
  unfolding in_range_def using set_update_subset_insert[of xs i v] by auto

lemma in_range_nth: "in_range base xs \<Longrightarrow> i < length xs \<Longrightarrow> 0 \<le> xs ! i \<and> xs ! i < base"
  by (simp add: in_range_def)

lemma in_range_peek: "in_range base xs \<Longrightarrow> 0 < base \<Longrightarrow> 0 \<le> peek xs null_value \<and> peek xs null_value < base"
  by (cases xs) (simp_all add: in_range_def peek_def null_value_def)

lemma in_range_tl: "in_range base xs \<Longrightarrow> in_range base (tl xs)"
  by (cases xs) (simp_all add: in_range_def)

lemma exec_command_range:
  assumes "0 < base" and "in_range base (cells st)" and "in_range base (input_iter st)"
    and "exec_command bm base c st = Inr st'"
  shows "in_range base (cells st') \<and> in_range base (input_iter st')"
proof (cases c rule: command_cases)
  case 1
  with assms show ?thesis by (auto simp: exec_simps in_range_def null_value_def split: if_splits)
next
  case 2
  with assms show ?thesis by (auto simp: exec_simps)
next
  case 3
  with assms in_range_nth[OF assms(2), of "cellptr st"] show ?thesis
    by (auto simp: exec_simps split: if_splits intro!: in_range_update)
next
  case 4
  with assms in_range_nth[OF assms(2), of "cellptr st"] show ?thesis
    by (auto simp: exec_simps split: if_splits intro!: in_range_update)
next
  case 5
  with assms show ?thesis by (auto simp: exec_simps split: if_splits option.splits)
next
  case 6
  with assms show ?thesis by (auto simp: exec_simps split: if_splits option.splits)
next
  case 7
  with assms show ?thesis by (auto simp: exec_simps split: if_splits)
next
  case 8
  with assms in_range_peek[OF assms(3,1)] in_range_tl[OF assms(3)] show ?thesis
    by (auto simp: exec_simps split: if_splits intro!: in_range_update)
next
  case 9
  with assms show ?thesis by (simp add: exec_other)
qed

lemma loop_body_range:
  assumes "0 < base" and "range_inv base st" and "loop_body code bm base dbg st = Inr st'"
  shows "range_inv base st'"
proof -
  let ?c = "code ! codeptr st"
  from assms(3) obtain st1 st2 where
    st1: "st1 = st \<or> (\<exists>s. snapshot [?c] st = Inr s \<and> st1 = st\<lparr>trace := trace st @ [s]\<rparr>)"
    and e: "exec_command bm base ?c st1 = Inr st2"
    and st': "st' = st2\<lparr>codeptr := codeptr st2 + 1, nsteps := nsteps st2 + 1\<rparr>"
    by (auto simp: loop_body_def Let_def split: if_splits sum.splits)
  from st1 assms(2) have r1: "range_inv base st1"
    by (auto simp: range_inv_def snapshot_def split: if_splits)
  from exec_command_range[OF assms(1) _ _ e] r1 exec_command_nsteps[OF e]
  have "range_inv base st2" by (simp add: range_inv_def)
  with st' show ?thesis by (simp add: range_inv_def)
qed

lemma evaluate_range_aux:
  assumes b: "2 \<le> base"
    and inp: "case input_buffer of None \<Rightarrow> True | Some b \<Rightarrow> in_range base b"
    and mem: "case init_memory of None \<Rightarrow> True | Some m \<Rightarrow> in_range base m"
    and ev: "evaluate code input_buffer init_memory base timeout max_steps rcs om dbg = Some (Inr r)"
  shows "(\<forall>m. memory r = Some m \<longrightarrow> in_range base m) \<and>
         (\<forall>tr. program_trace r = Some tr \<longrightarrow> (\<forall>s \<in> set tr. in_range base (snap_memory s)))"
proof -
  obtain bm cs where bb: "buildbracemap code = (bm, cs)" by (cases "buildbracemap code") auto
  show ?thesis
  proof (cases "rcs \<and> \<not> cs")
    case True
    with ev show ?thesis unfolding evaluate_unfold[OF bb] by (auto simp: in_range_def split: if_splits)
  next
    case False
    from evaluate_run[OF bb False ev] obtain st' ok rsn where
      w: "while_loop code bm base timeout max_steps dbg (initial_state input_buffer init_memory)
            = Some (Inr (st', ok, rsn))"
      and wf: "wf_state st'" and f: "finish code om dbg (st', ok, rsn) = Inr r" by blast
    from b have b0: "0 < base" by simp
    from inp mem b0 have i0: "range_inv base (initial_state input_buffer init_memory)"
      by (auto simp: range_inv_def initial_state_def in_range_def split: option.splits)
    have inv: "range_inv base st'"
    proof (rule while_loop_invariant[OF w, where I = "range_inv base"])
      show "range_inv base (initial_state input_buffer init_memory)" by (rule i0)
      show "Inr (st', ok, rsn) = Inr (st', ok, rsn)" by simp
      fix s s' assume "range_inv base s" "loop_body code bm base dbg s = Inr s'"
      then show "range_inv base s'" by (rule loop_body_range[OF b0])
    qed
    from f wf inv show ?thesis
      by (auto simp: finish_def snapshot_def wf_state_def range_inv_def split: if_splits)
  qed
qed

subsection \<open>Concrete runs\<close>




lemma run_read_300:
  "evaluate '','' (Some [300]) None 256 None None True True False
     = Some (Inr \<lparr>output_list = [], success = True, failure_reason = SUCCESS, steps = 1,
                  memory = Some [300], program_trace = None\<rparr>)"
  by code_simp

lemma run_read_3:
  "evaluate '',+'' (Some [3]) None 5 None None True True True
     = Some (Inr \<lparr>output_list = [], success = True, failure_reason = SUCCESS, steps = 2,
                  memory = Some [4],
                  program_trace = Some [ExecutionSnapshot 0 '','' 0 0 [0] 3 [],
                                        ExecutionSnapshot 1 ''+'' 0 3 [3] 0 [],
                                        ExecutionSnapshot 2 [] 0 4 [4] 0 []]\<rparr>)"
  by code_simp

lemma run_loop_limit_3:
  "evaluate ''+.[].'' None None 5 None (Some 3) True False False
     = Some (Inr \<lparr>output_list = [1], success = False, failure_reason = STEP_LIMIT, steps = 3,
                  memory = None, program_trace = None\<rparr>)"
  by code_simp

lemma run_loop_limit_4:
  "evaluate ''+.[].'' None None 5 None (Some 4) True False False
     = Some (Inr \<lparr>output_list = [1], success = False, failure_reason = STEP_LIMIT, steps = 4,
                  memory = None, program_trace = None\<rparr>)"
  by code_simp

lemma status_distinct:
  "STEP_LIMIT \<noteq> SUCCESS" "TIMEOUT \<noteq> SUCCESS" "SYNTAX_ERROR \<noteq> SUCCESS"
  "TIMEOUT \<noteq> STEP_LIMIT" "SYNTAX_ERROR \<noteq> STEP_LIMIT" "SYNTAX_ERROR \<noteq> TIMEOUT"
  by (simp_all add: SUCCESS_def TIMEOUT_def STEP_LIMIT_def SYNTAX_ERROR_def)


section \<open>Properties of crossover and of scoring\<close>

subsection \<open>Crossover\<close>

lemma crossover_sorted:
  assumes "pos < length max_parent" and "length min_parent \<le> length max_parent"
  shows "(if pos \<ge> length min_parent then
            length (take pos max_parent) + length (min_parent @ drop pos max_parent)
          else length (take pos max_parent @ drop pos min_parent)
               + length (take pos min_parent @ drop pos max_parent))
         = length max_parent + length min_parent"
    and "(if pos \<ge> length min_parent then length (take pos max_parent)
          else length (take pos max_parent @ drop pos min_parent)) \<le> length max_parent"
    and "(if pos \<ge> length min_parent then length (min_parent @ drop pos max_parent)
          else length (take pos min_parent @ drop pos max_parent)) \<le> length max_parent"
  using assms by auto

lemma crossover_lengths:
  assumes "parent1 \<noteq> [] \<or> parent2 \<noteq> []"
  shows "\<exists>child1 child2. crossover u parent1 parent2 = Inr (child1, child2)
     \<and> length child1 + length child2 = length parent1 + length parent2
     \<and> length child1 \<le> max (length parent1) (length parent2)
     \<and> length child2 \<le> max (length parent1) (length parent2)"
proof -
  define max_parent where "max_parent = (if length parent1 > length parent2 then parent1 else parent2)"
  define min_parent where "min_parent = (if length parent1 > length parent2 then parent2 else parent1)"
  define pos where "pos = u mod length max_parent"
  from assms have n: "length max_parent \<noteq> 0" by (auto simp: max_parent_def)
  then have p: "pos < length max_parent" by (simp add: pos_def)
  have le: "length min_parent \<le> length max_parent" by (simp add: max_parent_def min_parent_def)
  have mx: "max (length parent1) (length parent2) = length max_parent"
    and sm: "length parent1 + length parent2 = length max_parent + length min_parent"
    by (auto simp: max_parent_def min_parent_def)
  have c: "crossover u parent1 parent2 =
      (if pos \<ge> length min_parent then
         Inr (take pos max_parent, min_parent @ drop pos max_parent)
       else Inr (take pos max_parent @ drop pos min_parent,
                 take pos min_parent @ drop pos max_parent))"
    using n by (auto simp: crossover_def randrange_def max_parent_def min_parent_def pos_def)
  show ?thesis
  proof (cases "pos \<ge> length min_parent")
    case True
    with c crossover_sorted[OF p le] show ?thesis unfolding mx sm by simp
  next
    case False
    with c crossover_sorted[OF p le] show ?thesis unfolding mx sm by simp
  qed
qed

lemma crossover_empty: "crossover u [] [] = Inl ValueError"
  by (simp add: crossover_def randrange_def)

subsection \<open>The constructor\<close>

lemma init_fields:
  assumes "MultiIOTaskManager_init t kw = Inr m"
  shows "max_execution_steps m = arg (kw_max_execution_steps kw) 5000"
    and "correct_bonus m = arg (kw_correct_bonus kw) 1"
    and "code_length_bonus m = arg (kw_code_length_bonus kw) 1"
    and "failure_reward m = arg (kw_failure_reward kw) (- 2)"
    and "max_code_length m = arg (kw_max_code_length kw) 32"
    and "min_code_length m = arg (kw_min_code_length kw) 0"
    and "time_penalty m = (if max_code_length m > min_code_length m
                           then 1 / (max_code_length m - min_code_length m) else 0)"
  using assms
  by (auto simp: MultiIOTaskManager_init_def Let_def MAX_EXECUTION_STEPS_def split: sum.splits)

subsection \<open>Scoring stops at the first failed run\<close>

lemma score_cases_failure:
  assumes "\<forall>j < length pre. \<exists>r. run_case m clock code (i0 + j) (fst (pre ! j)) = Some (Inr r) \<and> success r"
    and "run_case m clock code (i0 + length pre) input_seq = Some (Inr r)" and "\<not> success r"
    and "score_cases m clock code i0 (pre @ (input_seq, output_seq) # rest) acc = Some (Inr res)"
  shows "res = (failure_reward m, [], failure_reason r)"
  using assms
proof (induction pre arbitrary: i0 acc)
  case Nil
  then show ?case by (cases acc) (simp split: prod.splits)
next
  case (Cons c pre i0 acc)
  obtain inp out where c: "c = (inp, out)" by (cases c) auto
  obtain tr rs re where acc: "acc = (tr, rs, re)" by (cases acc) auto
  from Cons.prems(1)[rule_format, of 0] c obtain r0 where
    r0: "run_case m clock code i0 inp = Some (Inr r0)" "success r0" by auto
  have rest_ok: "\<forall>j < length pre. \<exists>r. run_case m clock code (Suc i0 + j) (fst (pre ! j)) = Some (Inr r) \<and> success r"
  proof (intro allI impI)
    fix j assume "j < length pre"
    with Cons.prems(1)[rule_format, of "Suc j"] show "\<exists>r. run_case m clock code (Suc i0 + j) (fst (pre ! j)) = Some (Inr r) \<and> success r"
      by simp
  qed
  from Cons.prems(2) have fail: "run_case m clock code (Suc i0 + length pre) input_seq = Some (Inr r)"
    by simp
  from Cons.prems(4) c acc r0 obtain acc' where
    "score_cases m clock code (Suc i0) (pre @ (input_seq, output_seq) # rest) acc' = Some (Inr res)"
    by (auto simp: Let_def split: sum.splits)
  from Cons.IH[OF rest_ok fail Cons.prems(3) this] show ?case .
qed

lemma score_cases_stops:
  assumes "\<forall>j < length pre. \<exists>r. run_case m clock code (i0 + j) (fst (pre ! j)) = Some (Inr r) \<and> success r"
    and "run_case m clock code (i0 + length pre) input_seq = Some (Inr r)" and "\<not> success r"
    and "\<forall>j \<le> i0 + length pre. clock' j = clock j"
  shows "score_cases m clock' code i0 (pre @ (input_seq, output_seq) # rest') acc
       = score_cases m clock code i0 (pre @ (input_seq, output_seq) # rest) acc"
  using assms
proof (induction pre arbitrary: i0 acc)
  case Nil
  then have "run_case m clock' code i0 input_seq = run_case m clock code i0 input_seq"
    by (simp add: run_case_def)
  with Nil show ?case by (cases acc) simp
next
  case (Cons c pre i0 acc)
  obtain inp out where c: "c = (inp, out)" by (cases c) auto
  obtain tr rs re where acc: "acc = (tr, rs, re)" by (cases acc) auto
  from Cons.prems(4) have same: "run_case m clock' code i0 inp = run_case m clock code i0 inp"
    by (simp add: run_case_def)
  have rest_ok: "\<forall>j < length pre. \<exists>r. run_case m clock code (Suc i0 + j) (fst (pre ! j)) = Some (Inr r) \<and> success r"
  proof (intro allI impI)
    fix j assume "j < length pre"
    with Cons.prems(1)[rule_format, of "Suc j"] show "\<exists>r. run_case m clock code (Suc i0 + j) (fst (pre ! j)) = Some (Inr r) \<and> success r"
      by simp
  qed
  from Cons.prems(2) have fail: "run_case m clock code (Suc i0 + length pre) input_seq = Some (Inr r)"
    by simp
  from Cons.prems(4) have cl: "\<forall>j \<le> Suc i0 + length pre. clock' j = clock j" by simp
  note ih = Cons.IH[OF rest_ok fail Cons.prems(3) cl]
  show ?case
    unfolding c acc by (simp add: same ih Let_def split: option.splits sum.splits)
qed

lemma evaluate_failure_reason:
  assumes "evaluate code inp mem base timeout max_steps rcs om dbg = Some (Inr r)"
  shows "success r \<longleftrightarrow> failure_reason r = SUCCESS"
proof -
  obtain bm cs where bb: "buildbracemap code = (bm, cs)" by (cases "buildbracemap code") auto
  show ?thesis
  proof (cases "rcs \<and> \<not> cs")
    case True
    with assms show ?thesis unfolding evaluate_unfold[OF bb] by (auto simp: status_distinct)
  next
    case False
    from evaluate_run[OF bb False assms] obtain st' ok rsn where
      w: "while_loop code bm base timeout max_steps dbg (initial_state inp mem) = Some (Inr (st', ok, rsn))"
      and wf: "wf_state st'" and f: "finish code om dbg (st', ok, rsn) = Inr r" by blast
    from finish_ok[OF wf, of code om dbg ok rsn] f
    have r: "failure_reason r = rsn" "success r = ok" by auto
    from while_loop_result[OF w, of st' ok rsn] have "ok \<longleftrightarrow> rsn = SUCCESS"
      by (auto simp: status_distinct split: if_splits)
    with r show ?thesis by simp
  qed
qed

lemma score_code_failure_aux:
  assumes sc: "score_code m clock code = Some (Inr info)"
    and i: "i < length (make_io_set (task m))"
    and before: "\<forall>j < i. \<exists>r. run_case m clock code j (fst (make_io_set (task m) ! j)) = Some (Inr r) \<and> success r"
    and fail: "run_case m clock code i (fst (make_io_set (task m) ! i)) = Some (Inr r)" "\<not> success r"
  shows "score_cases m clock code 0 (make_io_set (task m)) (0, [], ''correct'')
           = Some (Inr (failure_reward m, [], failure_reason r))"
    and "code_output info = []" and "reason info = failure_reason r"
    and "episode_rewards info = replicate (length code - 1) 0 @ [failure_reward m / best_reward m]"
    and "\<forall>clock' rest'. (\<forall>j \<le> i. clock' j = clock j) \<longrightarrow>
            score_cases m clock' code 0 (take (Suc i) (make_io_set (task m)) @ rest') (0, [], ''correct'')
          = score_cases m clock code 0 (make_io_set (task m)) (0, [], ''correct'')"
proof -
  let ?io = "make_io_set (task m)"
  let ?pre = "take i ?io"
  obtain inp out where x: "?io ! i = (inp, out)" by (cases "?io ! i") auto
  from i have split: "?io = ?pre @ (inp, out) # drop (Suc i) ?io"
    using id_take_nth_drop[OF i] x by simp
  from i have lp: "length ?pre = i" by simp
  have pre_ok: "\<forall>j < length ?pre. \<exists>r. run_case m clock code (0 + j) (fst (?pre ! j)) = Some (Inr r) \<and> success r"
    using before lp by simp
  from fail x lp have f: "run_case m clock code (0 + length ?pre) inp = Some (Inr r)" by simp
  from sc obtain res where res: "score_cases m clock code 0 ?io (0, [], ''correct'') = Some (Inr res)"
    by (auto simp: score_code_def Let_def split: option.splits sum.splits)
  then have res': "score_cases m clock code 0 (?pre @ (inp, out) # drop (Suc i) ?io) (0, [], ''correct'') = Some (Inr res)"
    using split by simp
  from score_cases_failure[OF pre_ok f fail(2) res'] res
  show a: "score_cases m clock code 0 ?io (0, [], ''correct'') = Some (Inr (failure_reward m, [], failure_reason r))"
    by simp
  from sc a show "code_output info = []" and "reason info = failure_reason r"
    and "episode_rewards info = replicate (length code - 1) 0 @ [failure_reward m / best_reward m]"
    by (auto simp: score_code_def Let_def split: if_splits)
  show "\<forall>clock' rest'. (\<forall>j \<le> i. clock' j = clock j) \<longrightarrow>
            score_cases m clock' code 0 (take (Suc i) ?io @ rest') (0, [], ''correct'')
          = score_cases m clock code 0 ?io (0, [], ''correct'')"
  proof (intro allI impI)
    fix clock' rest' assume "\<forall>j \<le> i. clock' j = clock j"
    then have cl: "\<forall>j \<le> 0 + length ?pre. clock' j = clock j" using lp by simp
    have t: "take (Suc i) ?io = ?pre @ [(inp, out)]"
      using take_Suc_conv_app_nth[OF i] x by simp
    from score_cases_stops[OF pre_ok f fail(2) cl, of out rest' "(0, [], ''correct'')" "drop (Suc i) ?io"]
    show "score_cases m clock' code 0 (take (Suc i) ?io @ rest') (0, [], ''correct'')
          = score_cases m clock code 0 ?io (0, [], ''correct'')"
      unfolding t using split by simp
  qed
qed

subsection \<open>Concrete scoring runs\<close>

lemma demo_init: "MultiIOTaskManager_init demo_task (no_kwargs\<lparr>kw_max_execution_steps := Some 3\<rparr>) = Inr demo_manager"
  by (simp add: MultiIOTaskManager_init_def demo_task_def demo_manager_def no_kwargs_def arg_def
      absolute_distance_reward_def absolute_distance_def abs_diff_def Let_def)
lemma demo_default_bonus: "map_sum id correct_bonus (MultiIOTaskManager_init demo_task no_kwargs) = Inr 1"
  by (simp add: MultiIOTaskManager_init_def demo_task_def no_kwargs_def arg_def
      absolute_distance_reward_def absolute_distance_def abs_diff_def Let_def)
lemma demo_run_0: "run_case demo_manager no_clock ''+.[]'' 0 [] =
   Some (Inr \<lparr>output_list = [1], success = False, failure_reason = STEP_LIMIT, steps = 3,
                  memory = None, program_trace = None\<rparr>)"
  unfolding run_case_def demo_manager_def demo_task_def no_clock_def
  apply simp
  by code_simp
lemma demo_fields:
  "make_io_set (task demo_manager) = [([], [1]), ([], [1, 2])]"
  "failure_reward demo_manager = - 2" "best_reward demo_manager = 6"
  "input_type demo_manager = IOType_integer" "output_type demo_manager = IOType_integer"
  by (simp_all add: demo_manager_def demo_task_def)
lemma demo_score: "score_code demo_manager no_clock ''+.[]'' =
   Some (Inr \<lparr>episode_rewards = [0, 0, 0, - 2 / 6], input_case = [[], []],
     correct_output = [[1], [1, 2]], code_output = [], reason = STEP_LIMIT,
     info_input_type = IOType_integer, info_output_type = IOType_integer\<rparr>)"
  by (simp add: score_code_def demo_fields demo_run_0 Let_def numeral_eq_Suc)

lemma demo_crossover: "crossover 7 ''abcde'' ''xy'' = Inr (''ab'', ''xycde'')"
  by (simp add: crossover_def randrange_def)

section \<open>Properties of the results store\<close>

lemma shard_ids_of_char:
  "shard_ids_of names ids0 = Inr ids \<Longrightarrow>
     ids i = (case filter (\<lambda>f. search_regex_matches f \<and> get_shard_id f = Inr i) names of
                [] \<Rightarrow> ids0 i
              | fs \<Rightarrow> Some (last fs))"
proof (induction names arbitrary: ids0)
  case Nil
  then show ?case by simp
next
  case (Cons f names ids0)
  show ?case
  proof (cases "search_regex_matches f")
    case False
    with Cons.prems have "shard_ids_of names ids0 = Inr ids" by simp
    from Cons.IH[OF this] False show ?thesis by simp
  next
    case True
    with Cons.prems obtain k where k: "get_shard_id f = Inr k"
      and r: "shard_ids_of names (ids0(k \<mapsto> f)) = Inr ids"
      by (auto split: sum.splits)
    from Cons.IH[OF r] have ih: "ids i =
       (case filter (\<lambda>f. search_regex_matches f \<and> get_shard_id f = Inr i) names of
                [] \<Rightarrow> (ids0(k \<mapsto> f)) i
              | fs \<Rightarrow> Some (last fs))" .
    show ?thesis
    proof (cases "k = i")
      case True
      with ih k \<open>search_regex_matches f\<close> show ?thesis
        by (auto split: list.splits)
    next
      case False
      with ih k \<open>search_regex_matches f\<close> show ?thesis
        by (auto split: list.splits)
    qed
  qed
qed

lemma shard_ids_of_discovered:
  "shard_ids_of names Map.empty = Inr ids \<Longrightarrow> ids i = discovered names i"
  using shard_ids_of_char[of names Map.empty ids i]
  by (simp add: discovered_def split: list.splits)

lemma max_local_repetitions_of_all:
  "max_local_repetitions_of rs = Inr ns \<Longrightarrow>
     length ns = length rs \<and> (\<forall>k < length rs. map_of (rs ! k) ''max_local_repetitions'' = Some (ns ! k))"
proof (induction rs arbitrary: ns)
  case Nil
  then show ?case by simp
next
  case (Cons r rs)
  from Cons.prems obtain n ns' where n: "map_of r ''max_local_repetitions'' = Some n"
    and r: "max_local_repetitions_of rs = Inr ns'" and ns: "ns = n # ns'"
    by (auto split: option.splits sum.splits)
  from Cons.IH[OF r] n ns show ?case
    by (auto simp: less_Suc_eq_0_disj)
qed

lemma get_max_local_reps_char:
  assumes "get_max_local_reps rs = Inr mlr"
  shows "(rs = [] \<longrightarrow> mlr = 0) \<and> (\<forall>r \<in> set rs. map_of r ''max_local_repetitions'' = Some mlr)"
proof -
  from assms obtain ns where ns: "max_local_repetitions_of rs = Inr ns"
    and m: "if ns = [] then mlr = 0 else list_all (\<lambda>n. n = hd ns) (tl ns) \<and> mlr = hd ns"
    by (auto simp: get_max_local_reps_def split: sum.splits if_splits)
  note a = max_local_repetitions_of_all[OF ns]
  have all: "\<forall>n \<in> set ns. n = mlr"
  proof (cases ns)
    case Nil
    then show ?thesis by simp
  next
    case (Cons x xs)
    with m show ?thesis by (auto simp: list_all_iff)
  qed
  have "\<forall>r \<in> set rs. map_of r ''max_local_repetitions'' = Some mlr"
  proof
    fix r assume "r \<in> set rs"
    then obtain k where k: "k < length rs" "rs ! k = r" by (auto simp: in_set_conv_nth)
    with a have "map_of r ''max_local_repetitions'' = Some (ns ! k)" by auto
    moreover from k a have "ns ! k \<in> set ns" by simp
    ultimately show "map_of r ''max_local_repetitions'' = Some mlr" using all by simp
  qed
  moreover from m a have "rs = [] \<longrightarrow> mlr = 0" by auto
  ultimately show ?thesis by blast
qed

lemma shard_stats_of_char:
  "shard_stats_of rss = Inr stats \<Longrightarrow>
     length stats = length rss \<and>
     (\<forall>k < length rss. get_max_local_reps (rss ! k) = Inr (max_local_reps (stats ! k))
        \<and> num_local_reps_completed (stats ! k) = length (rss ! k)
        \<and> finished (stats ! k) = ge_non_zero (int (length (rss ! k))) (max_local_reps (stats ! k)))"
proof (induction rss arbitrary: stats)
  case Nil
  then show ?case by simp
next
  case (Cons rs rss)
  from Cons.prems obtain mlr stats' where m: "get_max_local_reps rs = Inr mlr"
    and r: "shard_stats_of rss = Inr stats'"
    and s: "stats = \<lparr>num_local_reps_completed = length rs, max_local_reps = mlr,
                      finished = ge_non_zero (int (length rs)) mlr\<rparr> # stats'"
    by (auto split: sum.splits)
  from Cons.IH[OF r] m s show ?case
    by (auto simp: less_Suc_eq_0_disj)
qed

lemma read_all_char:
  assumes "read_all files (Some all_children) n = Inr (aggregate, st)"
  shows "\<exists>stats. st = Inr stats
     \<and> aggregate = concat (map (shard_entries files all_children) [0 ..< n])
     \<and> length stats = n
     \<and> (\<forall>i < n. num_local_reps_completed (stats ! i) = length (shard_entries files all_children i)
           \<and> (finished (stats ! i) \<longleftrightarrow>
                int (length (shard_entries files all_children i)) \<ge> max_local_reps (stats ! i)
                \<and> max_local_reps (stats ! i) > 0)
           \<and> (shard_entries files all_children i = [] \<longrightarrow>
                max_local_reps (stats ! i) = 0 \<and> \<not> finished (stats ! i))
           \<and> (\<forall>r \<in> set (shard_entries files all_children i).
                map_of r ''max_local_repetitions'' = Some (max_local_reps (stats ! i))))"
proof -
  from assms obtain ids stats where ids: "shard_ids_of all_children Map.empty = Inr ids"
    and ss: "shard_stats_of (map (\<lambda>shard_id. case ids shard_id of
                                         Some results_file \<Rightarrow> read_shard files results_file
                                       | None \<Rightarrow> []) [0 ..< n]) = Inr stats"
    and ag: "aggregate = concat (map (\<lambda>shard_id. case ids shard_id of
                                         Some results_file \<Rightarrow> read_shard files results_file
                                       | None \<Rightarrow> []) [0 ..< n])"
    and st: "st = Inr stats"
    by (auto simp: read_all_def Let_def split: sum.splits)
  have e: "(\<lambda>shard_id. case ids shard_id of Some results_file \<Rightarrow> read_shard files results_file
                                       | None \<Rightarrow> []) = shard_entries files all_children"
    by (rule ext) (simp add: shard_entries_def shard_ids_of_discovered[OF ids] split: option.splits)
  note c = shard_stats_of_char[OF ss[unfolded e]]
  have "\<forall>i < n. num_local_reps_completed (stats ! i) = length (shard_entries files all_children i)
           \<and> (finished (stats ! i) \<longleftrightarrow>
                int (length (shard_entries files all_children i)) \<ge> max_local_reps (stats ! i)
                \<and> max_local_reps (stats ! i) > 0)
           \<and> (shard_entries files all_children i = [] \<longrightarrow>
                max_local_reps (stats ! i) = 0 \<and> \<not> finished (stats ! i))
           \<and> (\<forall>r \<in> set (shard_entries files all_children i).
                map_of r ''max_local_repetitions'' = Some (max_local_reps (stats ! i)))"
  proof (intro allI impI)
    fix i assume i: "i < n"
    with c have g: "get_max_local_reps (shard_entries files all_children i) = Inr (max_local_reps (stats ! i))"
      and nl: "num_local_reps_completed (stats ! i) = length (shard_entries files all_children i)"
      and f: "finished (stats ! i) = ge_non_zero (int (length (shard_entries files all_children i))) (max_local_reps (stats ! i))"
      by auto
    from get_max_local_reps_char[OF g] nl f
    show "num_local_reps_completed (stats ! i) = length (shard_entries files all_children i)
           \<and> (finished (stats ! i) \<longleftrightarrow>
                int (length (shard_entries files all_children i)) \<ge> max_local_reps (stats ! i)
                \<and> max_local_reps (stats ! i) > 0)
           \<and> (shard_entries files all_children i = [] \<longrightarrow>
                max_local_reps (stats ! i) = 0 \<and> \<not> finished (stats ! i))
           \<and> (\<forall>r \<in> set (shard_entries files all_children i).
                map_of r ''max_local_repetitions'' = Some (max_local_reps (stats ! i)))"
      by (auto simp: ge_non_zero_def)
  qed
  moreover from c have "length stats = n" by simp
  moreover from ag e have "aggregate = concat (map (shard_entries files all_children) [0 ..< n])"
    by simp
  ultimately show ?thesis using st by blast
qed

lemma demo_read_all_1:
  "read_all demo_files (Some demo_listing) 1 =
     Inr ([[(''max_local_repetitions'', 1), (''npe'', 5)]],
          Inr [\<lparr>num_local_reps_completed = 1, max_local_reps = 1, finished = True\<rparr>])"
  by code_simp

lemma demo_shard_1:
  "shard_entries demo_files demo_listing 1 = [[(''max_local_repetitions'', 1), (''npe'', 7)]]"
  "discovered demo_listing 1 = Some ''experiment_results_1.txt''"
  by code_simp+

lemma demo_read_all_3:
  "read_all demo_files (Some demo_listing) 3 =
     Inr ([[(''max_local_repetitions'', 1), (''npe'', 5)],
           [(''max_local_repetitions'', 1), (''npe'', 7)]],
          Inr [\<lparr>num_local_reps_completed = 1, max_local_reps = 1, finished = True\<rparr>,
               \<lparr>num_local_reps_completed = 1, max_local_reps = 1, finished = True\<rparr>,
               \<lparr>num_local_reps_completed = 0, max_local_reps = 0, finished = False\<rparr>])"
  by code_simp

section \<open>Properties of the roulette wheel\<close>

lemma same_entries_refl: "same_entries a a"
  by (simp add: same_entries_def)


lemma same_entries_buffer: "same_entries (a\<lparr>save_to_disk_buffer := b\<rparr>) a"
  by (simp add: same_entries_def)

lemma add_same_entries:
  assumes "same_entries a b" and "RouletteWheel_add a obj weight key = Inr (added, a1)"
  shows "\<exists>b1. RouletteWheel_add b obj weight key = Inr (added, b1) \<and> same_entries a1 b1"
  using assms
  by (auto simp: RouletteWheel_add_def same_entries_def append_entry_def total_weight_def
           split: if_splits option.splits)

lemma add_error_same_entries:
  assumes "same_entries a b" and "RouletteWheel_add a obj weight key = Inl e"
  shows "RouletteWheel_add b obj weight key = Inl e"
  using assms
  by (auto simp: RouletteWheel_add_def same_entries_def split: if_splits option.splits)




lemma load_records_same_entries:
  "same_entries a b \<Longrightarrow> load_records a rs = Inr a1 \<Longrightarrow>
     \<exists>b1. load_records b rs = Inr b1 \<and> same_entries a1 b1"
proof (induction rs arbitrary: a b)
  case Nil
  then show ?case by simp
next
  case (Cons r rs)
  obtain obj weight key where r: "r = (obj, weight, key)" by (cases r) auto
  from Cons.prems(2) r obtain added a' where a': "RouletteWheel_add a obj weight key = Inr (added, a')"
    and l: "load_records a' rs = Inr a1"
    by (auto split: sum.splits)
  from add_same_entries[OF Cons.prems(1) a'] obtain b' where
    b': "RouletteWheel_add b obj weight key = Inr (added, b')" and s: "same_entries a' b'" by blast
  from Cons.IH[OF s l] b' r show ?case by simp
qed













lemma demo_wheel_wrong_mode:
  "RouletteWheel_init False (Some ''wheel'') [''wheel'' \<mapsto> [(10::nat, 0.5, Some (1::nat)), (20, 0.25, Some 2)]]
     = Inl ValueError"
  by (simp add: RouletteWheel_init_def RouletteWheel_add_def)

section \<open>Properties of the heap functions\<close>

lemma is_heap_min:
  assumes "is_heap h"
  shows "i < length h \<Longrightarrow> fst (h ! 0) \<le> fst (h ! i)"
proof (induction i rule: less_induct)
  case (less i)
  show ?case
  proof (cases "i = 0")
    case True
    then show ?thesis by simp
  next
    case False
    then have p: "(i - 1) div 2 < i" by simp
    with less.prems have "(i - 1) div 2 < length h" by simp
    from less.IH[OF p this] have "fst (h ! 0) \<le> fst (h ! ((i - 1) div 2))" .
    moreover from assms False less.prems have "fst (h ! ((i - 1) div 2)) \<le> fst (h ! i)"
      by (simp add: is_heap_def)
    ultimately show ?thesis by simp
  qed
qed

lemma mset_update_move:
  assumes "p < length h" and "q < length h" and "p \<noteq> q"
  shows "mset (h[p := h ! q, q := x]) = mset (h[p := x])"
proof -
  let ?ls = "h[p := x]"
  from assms have "mset (?ls[p := ?ls ! q, q := ?ls ! p]) = mset ?ls"
    by (intro mset_swap) simp_all
  with assms show ?thesis by simp
qed

lemma heap_except_place:
  assumes "heap_except h p" and "p < length h"
    and up: "0 < p \<longrightarrow> fst (h ! ((p - 1) div 2)) \<le> fst v"
    and down: "\<forall>i. i < length h \<and> 0 < i \<and> (i - 1) div 2 = p \<longrightarrow> fst v \<le> fst (h ! i)"
  shows "is_heap (h[p := v])"
  unfolding is_heap_def
proof (intro allI impI)
  fix i assume i: "0 < i \<and> i < length (h[p := v])"
  then have il: "i < length h" and i0: "0 < i" by simp_all
  have pl: "(i - 1) div 2 < i" using i0 by simp
  show "fst (h[p := v] ! ((i - 1) div 2)) \<le> fst (h[p := v] ! i)"
  proof (cases "i = p")
    case True
    with pl have "(i - 1) div 2 \<noteq> p" by simp
    with True up i0 assms(2) show ?thesis by simp
  next
    case False
    show ?thesis
    proof (cases "(i - 1) div 2 = p")
      case True
      with down il i0 False assms(2) show ?thesis by simp
    next
      case np: False
      with assms(1) il i0 False have "fst (h ! ((i - 1) div 2)) \<le> fst (h ! i)"
        by (simp add: heap_except_def)
      with False np show ?thesis by simp
    qed
  qed
qed


lemma heap_except_parent_down:
  assumes he: "heap_except h p" and pl: "p < length h" and p0: "0 < p"
  shows "heap_except (h[p := h ! ((p - 1) div 2)]) ((p - 1) div 2)"
proof -
  let ?pp = "(p - 1) div 2"
  let ?h = "h[p := h ! ?pp]"
  have ppp: "?pp < p" using p0 by simp
  from he have e1: "\<And>i. 0 < i \<Longrightarrow> i < length h \<Longrightarrow> i \<noteq> p \<Longrightarrow> (i - 1) div 2 \<noteq> p
      \<Longrightarrow> fst (h ! ((i - 1) div 2)) \<le> fst (h ! i)"
    and e2: "\<And>i. i < length h \<Longrightarrow> 0 < i \<Longrightarrow> (i - 1) div 2 = p
      \<Longrightarrow> fst (h ! ?pp) \<le> fst (h ! i)"
    using p0 by (auto simp: heap_except_def)
  have part1: "fst (?h ! ((i - 1) div 2)) \<le> fst (?h ! i)"
    if "0 < i" "i < length ?h" "i \<noteq> ?pp" "(i - 1) div 2 \<noteq> ?pp" for i
  proof -
    from that have ip: "i \<noteq> p" by auto
    from that have il: "i < length h" by simp
    show ?thesis
    proof (cases "(i - 1) div 2 = p")
      case True
      with e2[OF il that(1) True] ip pl show ?thesis by simp
    next
      case False
      with e1[OF that(1) il ip False] ip show ?thesis by simp
    qed
  qed
  have part2: "fst (?h ! ((?pp - 1) div 2)) \<le> fst (?h ! i)"
    if "0 < ?pp" "i < length ?h" "0 < i" "(i - 1) div 2 = ?pp" for i
  proof -
    from that have il: "i < length h" by simp
    have gp: "(?pp - 1) div 2 < ?pp" using that(1) by simp
    with ppp have gpp: "(?pp - 1) div 2 \<noteq> p" by simp
    from ppp pl have ppl: "?pp < length h" by simp
    from ppp have "?pp \<noteq> p" by simp
    from e1[OF that(1) ppl this gpp] have a: "fst (h ! ((?pp - 1) div 2)) \<le> fst (h ! ?pp)" .
    show ?thesis
    proof (cases "i = p")
      case True
      with a gpp pl show ?thesis by simp
    next
      case False
      from that(4) ppp have "(i - 1) div 2 \<noteq> p" by simp
      from e1[OF that(3) il False this] that(4) have "fst (h ! ?pp) \<le> fst (h ! i)" by simp
      with a False gpp show ?thesis by simp
    qed
  qed
  show ?thesis
    unfolding heap_except_def using part1 part2 by blast
qed

lemma heap_except_child_up:
  assumes he: "heap_except h p" and cl: "c < length h" and c0: "0 < c" and cp: "(c - 1) div 2 = p"
    and least: "\<forall>i. i < length h \<and> 0 < i \<and> (i - 1) div 2 = p \<longrightarrow> fst (h ! c) \<le> fst (h ! i)"
  shows "heap_except (h[p := h ! c]) c"
proof -
  let ?h = "h[p := h ! c]"
  have pc: "p < c" using c0 cp by auto
  with cl have pl: "p < length h" by simp
  from he have e1: "\<And>i. 0 < i \<Longrightarrow> i < length h \<Longrightarrow> i \<noteq> p \<Longrightarrow> (i - 1) div 2 \<noteq> p
      \<Longrightarrow> fst (h ! ((i - 1) div 2)) \<le> fst (h ! i)"
    and e2: "\<And>i. 0 < p \<Longrightarrow> i < length h \<Longrightarrow> 0 < i \<Longrightarrow> (i - 1) div 2 = p
      \<Longrightarrow> fst (h ! ((p - 1) div 2)) \<le> fst (h ! i)"
    by (auto simp: heap_except_def)
  have part1: "fst (?h ! ((i - 1) div 2)) \<le> fst (?h ! i)"
    if "0 < i" "i < length ?h" "i \<noteq> c" "(i - 1) div 2 \<noteq> c" for i
  proof -
    from that have il: "i < length h" by simp
    show ?thesis
    proof (cases "i = p")
      case True
      then have p0: "0 < p" using that(1) by simp
      have "(p - 1) div 2 < p" using p0 by simp
      then have "(p - 1) div 2 \<noteq> p" by simp
      with e2[OF p0 cl c0 cp] True pl show ?thesis by simp
    next
      case False
      show ?thesis
      proof (cases "(i - 1) div 2 = p")
        case True
        with least il that(1) have "fst (h ! c) \<le> fst (h ! i)" by blast
        with True False pl show ?thesis by simp
      next
        case np: False
        with e1[OF that(1) il False np] False show ?thesis by simp
      qed
    qed
  qed
  have part2: "fst (?h ! ((c - 1) div 2)) \<le> fst (?h ! i)"
    if "i < length ?h" "0 < i" "(i - 1) div 2 = c" for i
  proof -
    from that have il: "i < length h" by simp
    from that(2,3) have ci: "c < i" by auto
    with pc have ip: "i \<noteq> p" by simp
    from that(3) pc have "(i - 1) div 2 \<noteq> p" by simp
    from e1[OF that(2) il ip this] that(3) have "fst (h ! c) \<le> fst (h ! i)" by simp
    with cp ip pl show ?thesis by simp
  qed
  show ?thesis
    unfolding heap_except_def using part1 part2 by blast
qed


lemma siftdown_loop_correct:
  "p < length h \<Longrightarrow> heap_except h p \<Longrightarrow>
   \<forall>i. i < length h \<and> 0 < i \<and> (i - 1) div 2 = p \<longrightarrow> fst v \<le> fst (h ! i) \<Longrightarrow>
   is_heap (siftdown_loop h 0 p v) \<and> mset (siftdown_loop h 0 p v) = mset (h[p := v])"
proof (induction p arbitrary: h rule: less_induct)
  case (less p)
  let ?pp = "(p - 1) div 2"
  show ?case
  proof (cases "0 < p \<and> cmp_lt v (h ! ?pp)")
    case False
    then have r: "siftdown_loop h 0 p v = h[p := v]"
      by (subst siftdown_loop.simps) (auto simp: Let_def)
    from False have up: "0 < p \<longrightarrow> fst (h ! ?pp) \<le> fst v"
      by (auto simp: cmp_lt_def)
    from heap_except_place[OF less.prems(2) less.prems(1) up less.prems(3)] r
    show ?thesis by simp
  next
    case True
    then have p0: "0 < p" and lt: "fst v < fst (h ! ?pp)" by (simp_all add: cmp_lt_def)
    let ?h = "h[p := h ! ?pp]"
    from True have r: "siftdown_loop h 0 p v = siftdown_loop ?h 0 ?pp v"
      by (subst siftdown_loop.simps) (simp add: Let_def)
    have ppp: "?pp < p" using p0 by simp
    with less.prems(1) have ppl: "?pp < length ?h" by simp
    note he = heap_except_parent_down[OF less.prems(2) less.prems(1) p0]
    from less.prems(2) have e1: "\<And>i. 0 < i \<Longrightarrow> i < length h \<Longrightarrow> i \<noteq> p \<Longrightarrow> (i - 1) div 2 \<noteq> p
      \<Longrightarrow> fst (h ! ((i - 1) div 2)) \<le> fst (h ! i)"
      by (auto simp: heap_except_def)
    have a: "\<forall>i. i < length ?h \<and> 0 < i \<and> (i - 1) div 2 = ?pp \<longrightarrow> fst v \<le> fst (?h ! i)"
    proof (intro allI impI)
      fix i assume i: "i < length ?h \<and> 0 < i \<and> (i - 1) div 2 = ?pp"
      show "fst v \<le> fst (?h ! i)"
      proof (cases "i = p")
        case True
        with lt less.prems(1) show ?thesis by simp
      next
        case False
        from i ppp have "(i - 1) div 2 \<noteq> p" by simp
        from e1[OF _ _ False this] i have "fst (h ! ?pp) \<le> fst (h ! i)" by simp
        with lt False show ?thesis by simp
      qed
    qed
    from less.IH[OF ppp ppl he a]
    have ih: "is_heap (siftdown_loop ?h 0 ?pp v)"
      "mset (siftdown_loop ?h 0 ?pp v) = mset (?h[?pp := v])" by simp_all
    from ppp less.prems(1) have "mset (?h[?pp := v]) = mset (h[p := v])"
      by (intro mset_update_move) simp_all
    with ih r show ?thesis by simp
  qed
qed

lemma siftup_loop_correct:
  "p < length h \<Longrightarrow> heap_except h p \<Longrightarrow> siftup_loop h (length h) p = (h1, p1) \<Longrightarrow>
   heap_except h1 p1 \<and> p1 < length h1 \<and> length h1 = length h \<and> length h1 \<le> 2 * p1 + 1
   \<and> (\<forall>x. mset (h1[p1 := x]) = mset (h[p := x]))"
proof (induction "length h - p" arbitrary: h p rule: less_induct)
  case less
  let ?l = "2 * p + 1"
  let ?r = "2 * p + 2"
  show ?case
  proof (cases "?l < length h")
    case False
    with less.prems(3) have "h1 = h" "p1 = p"
      by (subst (asm) siftup_loop.simps, simp add: Let_def)+
    with less.prems False show ?thesis by simp
  next
    case True
    define c where "c = (if ?r < length h \<and> \<not> cmp_lt (h ! ?l) (h ! ?r) then ?r else ?l)"
    let ?h = "h[p := h ! c]"
    from True less.prems(3) have r: "siftup_loop ?h (length ?h) c = (h1, p1)"
      by (subst (asm) siftup_loop.simps) (auto simp: Let_def c_def split: if_splits)
    have cl: "c < length h" using True by (simp add: c_def)
    have c0: "0 < c" by (simp add: c_def)
    have cp: "(c - 1) div 2 = p" by (simp add: c_def)
    have pc: "p < c" by (simp add: c_def)
    have least: "\<forall>i. i < length h \<and> 0 < i \<and> (i - 1) div 2 = p \<longrightarrow> fst (h ! c) \<le> fst (h ! i)"
    proof (intro allI impI)
      fix i assume i: "i < length h \<and> 0 < i \<and> (i - 1) div 2 = p"
      then have "i = ?l \<or> i = ?r" by auto
      with i show "fst (h ! c) \<le> fst (h ! i)"
        by (auto simp: c_def cmp_lt_def)
    qed
    note he = heap_except_child_up[OF less.prems(2) cl c0 cp least]
    have m: "length ?h - c < length h - p" using pc cl by simp
    have cl': "c < length ?h" using cl by simp
    from less.hyps[OF m cl' he r]
    have ih: "heap_except h1 p1" "p1 < length h1" "length h1 = length h" "length h1 \<le> 2 * p1 + 1"
      "\<forall>x. mset (h1[p1 := x]) = mset (?h[c := x])" by simp_all
    have "mset (?h[c := x]) = mset (h[p := x])" for x
      using less.prems(1) cl pc by (intro mset_update_move) simp_all
    with ih show ?thesis by simp
  qed
qed

lemma siftup_root_correct:
  assumes "is_heap h" and "h \<noteq> []"
  shows "is_heap (siftup (h[0 := v]) 0) \<and> mset (siftup (h[0 := v]) 0) = mset (h[0 := v])"
proof -
  let ?h = "h[0 := v]"
  from assms(2) have l: "0 < length ?h" by simp
  have he: "heap_except ?h 0"
    unfolding heap_except_def
  proof (intro conjI allI impI)
    fix i assume i: "0 < i \<and> i < length ?h \<and> i \<noteq> 0 \<and> (i - 1) div 2 \<noteq> 0"
    with assms(1) have "fst (h ! ((i - 1) div 2)) \<le> fst (h ! i)" by (simp add: is_heap_def)
    with i show "fst (?h ! ((i - 1) div 2)) \<le> fst (?h ! i)" by simp
  next
    fix i assume "(0::nat) < 0 \<and> i < length ?h \<and> 0 < i \<and> (i - 1) div 2 = 0"
    then show "fst (?h ! ((0 - 1) div 2)) \<le> fst (?h ! i)" by simp
  qed
  obtain h1 p1 where s: "siftup_loop ?h (length ?h) 0 = (h1, p1)" by (cases "siftup_loop ?h (length ?h) 0") auto
  from siftup_loop_correct[OF l he s]
  have a: "heap_except h1 p1" "p1 < length h1" "length h1 \<le> 2 * p1 + 1"
    "\<forall>x. mset (h1[p1 := x]) = mset (?h[0 := x])" by simp_all
  let ?h2 = "h1[p1 := v]"
  have he2: "heap_except ?h2 p1"
    unfolding heap_except_def
  proof (intro conjI allI impI)
    fix i assume i: "0 < i \<and> i < length ?h2 \<and> i \<noteq> p1 \<and> (i - 1) div 2 \<noteq> p1"
    with a(1) have "fst (h1 ! ((i - 1) div 2)) \<le> fst (h1 ! i)" by (simp add: heap_except_def)
    with i show "fst (?h2 ! ((i - 1) div 2)) \<le> fst (?h2 ! i)" by simp
  next
    fix i assume i: "0 < p1 \<and> i < length ?h2 \<and> 0 < i \<and> (i - 1) div 2 = p1"
    then have "False" using a(3) by auto
    then show "fst (?h2 ! ((p1 - 1) div 2)) \<le> fst (?h2 ! i)" ..
  qed
  have leaf: "\<forall>i. i < length ?h2 \<and> 0 < i \<and> (i - 1) div 2 = p1 \<longrightarrow> fst v \<le> fst (?h2 ! i)"
    using a(3) by auto
  from a(2) have p1l: "p1 < length ?h2" by simp
  from siftdown_loop_correct[OF p1l he2 leaf]
  have "is_heap (siftdown_loop ?h2 0 p1 v)" "mset (siftdown_loop ?h2 0 p1 v) = mset (?h2[p1 := v])"
    by simp_all
  moreover have "siftup ?h 0 = siftdown_loop ?h2 0 p1 v"
    using s a(2) assms(2) by (simp add: siftup_def siftdown_def Let_def)
  moreover from a(4)[rule_format, of v] have "mset (?h2[p1 := v]) = mset ?h" by simp
  ultimately show ?thesis by simp
qed

lemma heappush_correct:
  assumes "is_heap h"
  shows "is_heap (heappush h x) \<and> mset (heappush h x) = add_mset x (mset h)"
proof -
  let ?h = "h @ [x]"
  let ?p = "length h"
  have pl: "?p < length ?h" by simp
  have he: "heap_except ?h ?p"
    unfolding heap_except_def
  proof (intro conjI allI impI)
    fix i assume i: "0 < i \<and> i < length ?h \<and> i \<noteq> ?p \<and> (i - 1) div 2 \<noteq> ?p"
    then have il: "i < length h" by simp
    from i have i0: "0 < i" by simp
    then have "(i - 1) div 2 < i" by simp
    with il have "(i - 1) div 2 < length h" by simp
    with il assms i show "fst (?h ! ((i - 1) div 2)) \<le> fst (?h ! i)"
      by (simp add: is_heap_def nth_append)
  next
    fix i assume i: "0 < ?p \<and> i < length ?h \<and> 0 < i \<and> (i - 1) div 2 = ?p"
    then have "False" by auto
    then show "fst (?h ! ((?p - 1) div 2)) \<le> fst (?h ! i)" ..
  qed
  have leaf: "\<forall>i. i < length ?h \<and> 0 < i \<and> (i - 1) div 2 = ?p \<longrightarrow> fst x \<le> fst (?h ! i)"
    by auto
  from siftdown_loop_correct[OF pl he leaf]
  have "is_heap (siftdown_loop ?h 0 ?p x)" "mset (siftdown_loop ?h 0 ?p x) = mset (?h[?p := x])"
    by simp_all
  moreover have "heappush h x = siftdown_loop ?h 0 ?p x"
    by (simp add: heappush_def siftdown_def)
  ultimately show ?thesis by simp
qed

lemma heappushpop_correct:
  assumes "is_heap h" and "heappushpop h x = (popped, h1)"
  shows "is_heap h1 \<and> length h1 = length h
     \<and> add_mset popped (mset h1) = add_mset x (mset h)
     \<and> (\<forall>y \<in> set h1. fst popped \<le> fst y)
     \<and> (popped = x \<and> h1 = h \<or> h \<noteq> [] \<and> popped = h ! 0 \<and> fst popped < fst x)"
proof (cases "h \<noteq> [] \<and> cmp_lt (h ! 0) x")
  case False
  with assms(2) have r: "popped = x" "h1 = h" by (simp_all add: heappushpop_def)
  have "\<forall>y \<in> set h. fst x \<le> fst y"
  proof
    fix y assume "y \<in> set h"
    then obtain i where i: "i < length h" "h ! i = y" by (auto simp: in_set_conv_nth)
    then have "h \<noteq> []" by auto
    with False have "fst x \<le> fst (h ! 0)" by (simp add: cmp_lt_def)
    with is_heap_min[OF assms(1) i(1)] i(2) show "fst x \<le> fst y" by simp
  qed
  with r assms(1) show ?thesis by simp
next
  case True
  then have ne: "h \<noteq> []" and lt: "fst (h ! 0) < fst x" by (simp_all add: cmp_lt_def)
  from True assms(2) have r: "popped = h ! 0" "h1 = siftup (h[0 := x]) 0"
    by (simp_all add: heappushpop_def)
  from siftup_root_correct[OF assms(1) ne, of x] r
  have hp: "is_heap h1" and ms: "mset h1 = mset (h[0 := x])" by simp_all
  from ne have l0: "0 < length h" by simp
  from ms have len: "length h1 = length h" by (metis length_list_update size_mset)
  from ms l0 have ms': "add_mset popped (mset h1) = add_mset x (mset h)"
    by (simp add: mset_update r(1))
  have "\<forall>y \<in> set h1. fst popped \<le> fst y"
  proof
    fix y assume "y \<in> set h1"
    then have "y \<in># mset (h[0 := x])" using ms by (metis set_mset_mset)
    then have "y \<in> set (h[0 := x])" by simp
    then have "y = x \<or> y \<in> set h" using set_update_subset_insert[of h 0 x] by auto
    then show "fst popped \<le> fst y"
    proof
      assume "y = x" with lt r(1) show ?thesis by simp
    next
      assume "y \<in> set h"
      then obtain i where i: "i < length h" "h ! i = y" by (auto simp: in_set_conv_nth)
      with is_heap_min[OF assms(1) i(1)] r(1) show ?thesis by simp
    qed
  qed
  with hp len ms' r(1) ne lt show ?thesis by simp
qed

section \<open>Properties of the queue\<close>

lemma mset_sub_size_eq:
  assumes "A \<subseteq># B" and "size A = size B"
  shows "A = B"
proof -
  from size_Diff_submset[OF assms(1)] assms(2) have "B - A = {#}" by simp
  with assms(1) show ?thesis
    by (metis add.right_neutral subset_mset.add_diff_inverse)
qed

lemma distinct_items_sub:
  assumes "distinct (map f ys)" and "mset xs \<subseteq># mset ys"
  shows "distinct (map f xs)"
proof -
  from assms(2) have "image_mset f (mset xs) \<subseteq># image_mset f (mset ys)"
    by (rule image_mset_subseteq_mono)
  then have le: "count (mset (map f xs)) a \<le> count (mset (map f ys)) a" for a
    by (simp add: mset_subset_eq_count)
  from assms(1) have le1: "count (mset (map f ys)) a \<le> 1" for a
    by (simp add: distinct_count_atmost_1)
  have "count (mset (map f xs)) a = (if a \<in> set (map f xs) then 1 else 0)" for a
  proof (cases "a \<in> set (map f xs)")
    case True
    then have "1 \<le> count (mset (map f xs)) a"
      by (metis count_greater_eq_one_iff set_mset_mset)
    with le[of a] le1[of a] have "count (mset (map f xs)) a = 1" by linarith
    with True show ?thesis by (simp only: if_True)
  next
    case False
    then have "count (mset (map f xs)) a = 0"
      by (metis count_eq_zero_iff set_mset_mset)
    with False show ?thesis by (simp only: if_False)
  qed
  then show ?thesis by (simp only: distinct_count_atmost_1) simp
qed

lemma insert_minus_eq: "a \<notin> A \<Longrightarrow> insert a A = insert b B \<Longrightarrow> insert b B - {a} = A"
  by blast

lemma push_duplicate: "item \<in> unique_items q \<Longrightarrow> push q score item extra_data = Inr q"
  by (simp add: push_def)

lemma push_below_capacity:
  assumes inv: "queue_inv pushed q" and new: "item \<notin> item_of ` set pushed"
    and room: "length (heap q) < capacity q"
  shows "\<exists>q1. push q score item extra_data = Inr q1 \<and> capacity q1 = capacity q
           \<and> queue_inv (pushed @ [(score, item, extra_data)]) q1"
proof -
  let ?z = "(score, item, extra_data)"
  from inv have hp: "is_heap (heap q)" and len: "length (heap q) = min (capacity q) (length pushed)"
    and sub: "mset (heap q) \<subseteq># mset pushed" and ui: "unique_items q = item_of ` set (heap q)"
    by (simp_all add: queue_inv_def)
  from sub have "set (heap q) \<subseteq> set pushed" by (metis set_mset_mono set_mset_mset)
  with new ui have nu: "item \<notin> unique_items q" by auto
  let ?q1 = "q\<lparr>heap := heappush (heap q) ?z, unique_items := insert item (unique_items q)\<rparr>"
  from nu room have p: "push q score item extra_data = Inr ?q1"
    by (simp add: push_def)
  note hc = heappush_correct[OF hp, of ?z]
  from hc have ms: "mset (heappush (heap q) ?z) = add_mset ?z (mset (heap q))" by simp
  then have st: "set (heappush (heap q) ?z) = insert ?z (set (heap q))"
    by (metis set_mset_add_mset_insert set_mset_mset)
  from ms have l1: "length (heappush (heap q) ?z) = Suc (length (heap q))"
    by (metis size_add_mset size_mset)
  from room len have lp: "length (heap q) = length pushed" by simp
  with sub have eq: "mset (heap q) = mset pushed"
    by (intro mset_sub_size_eq) simp_all
  have "queue_inv (pushed @ [?z]) ?q1"
    unfolding queue_inv_def
  proof (intro conjI)
    show "is_heap (heap ?q1)" using hc by simp
    show "length (heap ?q1) = min (capacity ?q1) (length (pushed @ [?z]))"
      using l1 lp room by simp
    show "mset (heap ?q1) \<subseteq># mset (pushed @ [?z])" using ms eq by simp
    show "unique_items ?q1 = item_of ` set (heap ?q1)"
      using st ui by (simp add: item_of_def)
    show "\<forall>x \<in># mset (heap ?q1). \<forall>y \<in># mset (pushed @ [?z]) - mset (heap ?q1). fst y \<le> fst x"
      using ms eq by simp
  qed
  with p show ?thesis by simp
qed


lemma push_at_capacity:
  assumes inv: "queue_inv pushed q" and new: "item \<notin> item_of ` set pushed"
    and dist: "distinct (map item_of pushed)"
    and full: "capacity q \<le> length (heap q)"
  shows "\<exists>q1. push q score item extra_data = Inr q1 \<and> capacity q1 = capacity q
           \<and> queue_inv (pushed @ [(score, item, extra_data)]) q1"
proof -
  let ?z = "(score, item, extra_data)"
  let ?H = "mset (heap q)"
  let ?P = "mset pushed"
  from inv have hp: "is_heap (heap q)" and len: "length (heap q) = min (capacity q) (length pushed)"
    and sub: "?H \<subseteq># ?P" and ui: "unique_items q = item_of ` set (heap q)"
    and thr: "\<forall>x \<in># ?H. \<forall>y \<in># ?P - ?H. fst y \<le> fst x"
    by (simp_all add: queue_inv_def)
  from sub have ss: "set (heap q) \<subseteq> set pushed" by (metis set_mset_mono set_mset_mset)
  with new ui have nu: "item \<notin> unique_items q" by auto
  from len full have cap: "length (heap q) = capacity q" "capacity q \<le> length pushed" by simp_all
  obtain popped h1 where pp: "heappushpop (heap q) ?z = (popped, h1)"
    by (cases "heappushpop (heap q) ?z") auto
  from heappushpop_correct[OF hp pp]
  have hp1: "is_heap h1" and l1: "length h1 = length (heap q)"
    and ms: "add_mset popped (mset h1) = add_mset ?z ?H"
    and low: "\<forall>y \<in> set h1. fst popped \<le> fst y"
    and alt: "popped = ?z \<and> h1 = heap q \<or> heap q \<noteq> [] \<and> popped = heap q ! 0 \<and> fst popped < fst ?z"
    by simp_all
  have P: "?P = ?H + (?P - ?H)" using sub by simp
  have dz: "distinct (map item_of (pushed @ [?z]))"
    using dist new by (simp add: item_of_def)
  from alt show ?thesis
  proof
    assume a: "popped = ?z \<and> h1 = heap q"
    let ?q1 = "q\<lparr>heap := heap q, unique_items := insert item (unique_items q) - {item}\<rparr>"
    from a pp nu full have p: "push q score item extra_data = Inr ?q1"
      by (simp add: push_def)
    have d: "mset (pushed @ [?z]) - ?H = add_mset ?z (?P - ?H)"
      using sub by (simp add: multiset_eq_iff mset_subset_eq_count Suc_diff_le)
    have "queue_inv (pushed @ [?z]) ?q1"
      unfolding queue_inv_def
    proof (intro conjI)
      show "is_heap (heap ?q1)" using hp by simp
      show "length (heap ?q1) = min (capacity ?q1) (length (pushed @ [?z]))"
        using cap by simp
      show "mset (heap ?q1) \<subseteq># mset (pushed @ [?z])"
        using sub by (simp add: subseteq_mset_def le_SucI)
      show "unique_items ?q1 = item_of ` set (heap ?q1)" using ui nu by simp
      show "\<forall>x \<in># mset (heap ?q1). \<forall>y \<in># mset (pushed @ [?z]) - mset (heap ?q1). fst y \<le> fst x"
      proof (intro ballI)
        fix x y assume x: "x \<in># mset (heap ?q1)" and y: "y \<in># mset (pushed @ [?z]) - mset (heap ?q1)"
        from y d have "y = ?z \<or> y \<in># ?P - ?H" by auto
        then show "fst y \<le> fst x"
        proof
          assume "y = ?z"
          with low a x show ?thesis by auto
        next
          assume "y \<in># ?P - ?H"
          with thr x show ?thesis by simp
        qed
      qed
    qed
    with p show ?thesis by simp
  next
    assume b: "heap q \<noteq> [] \<and> popped = heap q ! 0 \<and> fst popped < fst ?z"
    then have min: "popped \<in> set (heap q)" by simp
    then have pu: "item_of popped \<in> unique_items q" using ui by simp
    let ?q1 = "q\<lparr>heap := h1, unique_items := insert item (unique_items q) - {item_of popped}\<rparr>"
    from pp nu full pu have p: "push q score item extra_data = Inr ?q1"
      by (cases popped) (simp add: push_def item_of_def)
    from ms have st: "insert popped (set h1) = insert ?z (set (heap q))"
      by (metis set_mset_add_mset_insert set_mset_mset)
    have "mset h1 \<subseteq># add_mset popped (mset h1)"
      by (simp add: subseteq_mset_def)
    with ms have s1: "mset h1 \<subseteq># add_mset ?z ?H" by simp
    have "mset (popped # h1) \<subseteq># mset (pushed @ [?z])"
      using ms sub by simp
    from distinct_items_sub[OF dz this] have "item_of popped \<notin> item_of ` set h1"
      by simp
    moreover from st have "insert (item_of popped) (item_of ` set h1) = insert item (item_of ` set (heap q))"
      by (metis image_insert item_of_def fst_conv snd_conv)
    ultimately have "insert item (item_of ` set (heap q)) - {item_of popped} = item_of ` set h1"
      by (rule insert_minus_eq)
    with ui have u1: "insert item (unique_items q) - {item_of popped} = item_of ` set h1"
      by simp
    have d: "mset (pushed @ [?z]) - mset h1 = add_mset popped (?P - ?H)"
    proof -
      have "mset (pushed @ [?z]) = add_mset ?z ?H + (?P - ?H)" using P by simp
      also have "\<dots> = add_mset popped (mset h1) + (?P - ?H)" using ms by simp
      finally show ?thesis by simp
    qed
    have "queue_inv (pushed @ [?z]) ?q1"
      unfolding queue_inv_def
    proof (intro conjI)
      show "is_heap (heap ?q1)" using hp1 by simp
      show "length (heap ?q1) = min (capacity ?q1) (length (pushed @ [?z]))"
        using cap l1 by simp
      show "mset (heap ?q1) \<subseteq># mset (pushed @ [?z])"
        using s1 sub by (simp add: subset_mset.order_trans)
      show "unique_items ?q1 = item_of ` set (heap ?q1)" using u1 by simp
      show "\<forall>x \<in># mset (heap ?q1). \<forall>y \<in># mset (pushed @ [?z]) - mset (heap ?q1). fst y \<le> fst x"
      proof (intro ballI)
        fix x y assume x: "x \<in># mset (heap ?q1)" and y: "y \<in># mset (pushed @ [?z]) - mset (heap ?q1)"
        from x have x1: "x \<in> set h1" by simp
        from y d have "y = popped \<or> y \<in># ?P - ?H" by auto
        then show "fst y \<le> fst x"
        proof
          assume "y = popped"
          with low x1 show ?thesis by simp
        next
          assume yd: "y \<in># ?P - ?H"
          from x1 st have "x = ?z \<or> x \<in> set (heap q)" by auto
          then show ?thesis
          proof
            assume "x = ?z"
            moreover from thr min yd have "fst y \<le> fst popped" by simp
            ultimately show ?thesis using b by auto
          next
            assume "x \<in> set (heap q)"
            with thr yd show ?thesis by simp
          qed
        qed
      qed
    qed
    with p show ?thesis by simp
  qed
qed


lemma push_inv:
  assumes "queue_inv pushed q" and "distinct (map item_of (pushed @ [(score, item, extra_data)]))"
  shows "\<exists>q1. push q score item extra_data = Inr q1 \<and> capacity q1 = capacity q
           \<and> queue_inv (pushed @ [(score, item, extra_data)]) q1"
proof -
  from assms(2) have new: "item \<notin> item_of ` set pushed" and dist: "distinct (map item_of pushed)"
    by (simp_all add: item_of_def)
  show ?thesis
  proof (cases "length (heap q) < capacity q")
    case True
    from push_below_capacity[OF assms(1) new True] show ?thesis .
  next
    case False
    then have "capacity q \<le> length (heap q)" by simp
    from push_at_capacity[OF assms(1) new dist this] show ?thesis .
  qed
qed

lemma push_all_inv:
  "queue_inv pushed q \<Longrightarrow> distinct (map item_of (pushed @ pushes)) \<Longrightarrow>
     \<exists>q1. push_all q pushes = Inr q1 \<and> capacity q1 = capacity q \<and> queue_inv (pushed @ pushes) q1"
proof (induction pushes arbitrary: pushed q)
  case Nil
  then show ?case by simp
next
  case (Cons z pushes)
  obtain score item extra_data where z: "z = (score, item, extra_data)" by (cases z) auto
  from Cons.prems(2) have d1: "distinct (map item_of (pushed @ [(score, item, extra_data)]))"
    unfolding z by simp
  from push_inv[OF Cons.prems(1) d1] obtain q1 where
    p: "push q score item extra_data = Inr q1" and c: "capacity q1 = capacity q"
    and i: "queue_inv (pushed @ [(score, item, extra_data)]) q1" by blast
  from Cons.prems(2) have d2: "distinct (map item_of ((pushed @ [(score, item, extra_data)]) @ pushes))"
    unfolding z by simp
  from Cons.IH[OF i d2] obtain q2 where
    "push_all q1 pushes = Inr q2" "capacity q2 = capacity q1"
    "queue_inv ((pushed @ [(score, item, extra_data)]) @ pushes) q2" by blast
  with p c z show ?case by simp
qed

lemma init_inv: "queue_inv [] (MaxUniquePriorityQueue_init c)"
  by (simp add: queue_inv_def MaxUniquePriorityQueue_init_def is_heap_def)

lemma queue_keeps_highest:
  assumes "distinct (map item_of pushes)"
  shows "\<exists>q. push_all (MaxUniquePriorityQueue_init c) pushes = Inr q
     \<and> capacity q = c
     \<and> length (heap q) = min c (length pushes)
     \<and> set (heap q) \<subseteq> set pushes
     \<and> distinct (map item_of (heap q))
     \<and> unique_items q = item_of ` set (heap q)
     \<and> (\<forall>x \<in> set (heap q). \<forall>y \<in> set pushes - set (heap q). fst y \<le> fst x)
     \<and> (\<forall>x \<in> set (heap q). \<forall>score extra_data. push q score (item_of x) extra_data = Inr q)"
proof -
  from push_all_inv[OF init_inv, of pushes c] assms obtain q where
    p: "push_all (MaxUniquePriorityQueue_init c) pushes = Inr q"
    and c': "capacity q = c"
    and i: "queue_inv pushes q"
    by (auto simp: MaxUniquePriorityQueue_init_def)
  from i have len: "length (heap q) = min (capacity q) (length pushes)"
    and sub: "mset (heap q) \<subseteq># mset pushes" and ui: "unique_items q = item_of ` set (heap q)"
    and thr: "\<forall>x \<in># mset (heap q). \<forall>y \<in># mset pushes - mset (heap q). fst y \<le> fst x"
    by (simp_all add: queue_inv_def)
  from sub have ss: "set (heap q) \<subseteq> set pushes" by (metis set_mset_mono set_mset_mset)
  from distinct_items_sub[OF assms sub] have d: "distinct (map item_of (heap q))" .
  have t: "\<forall>x \<in> set (heap q). \<forall>y \<in> set pushes - set (heap q). fst y \<le> fst x"
  proof (intro ballI)
    fix x y assume x: "x \<in> set (heap q)" and y: "y \<in> set pushes - set (heap q)"
    from y have "count (mset (heap q)) y = 0" "0 < count (mset pushes) y"
      by (simp_all add: count_eq_zero_iff)
    then have "y \<in># mset pushes - mset (heap q)"
      by (metis count_diff count_greater_zero_iff diff_zero)
    with thr x show "fst y \<le> fst x" by simp
  qed
  have dup: "\<forall>x \<in> set (heap q). \<forall>score extra_data. push q score (item_of x) extra_data = Inr q"
    using ui by (simp add: push_duplicate)
  from p c' len ss d ui t dup show ?thesis by blast
qed

lemma demo_queue:
  "push_all (MaxUniquePriorityQueue_init 2 :: (int, string, nat) MaxUniquePriorityQueue)
      [(1, ''a'', None), (3, ''b'', None), (2, ''c'', None)]
   = Inr \<lparr>capacity = 2, heap = [(2, ''c'', None), (3, ''b'', None)],
          unique_items = {''c'', ''b''}\<rparr>"
  by code_simp

lemma demo_queue_duplicate:
  "push \<lparr>capacity = 2, heap = [(2, ''c'', None), (3, ''b'', None)],
          unique_items = {''c'', ''b''}\<rparr> (7::int) ''b'' (Some (0::nat))
   = Inr \<lparr>capacity = 2, heap = [(2, ''c'', None), (3, ''b'', None)],
          unique_items = {''c'', ''b''}\<rparr>"
  by (simp add: push_def)

section \<open>The claims\<close>

subsection \<open>C1: the order of the stop conditions\<close>




subsection \<open>C2: invalid characters and the step counter\<close>




subsection \<open>C3: cell values\<close>

text \<open>
  C3, as stated, fails: the read operation stores an input value as it is.  With base 256
  and the input buffer \<open>[300]\<close>, the program \<open>,\<close> leaves 300 in cell 0.
\<close>

theorem evaluate_cells_counterexample:
  "evaluate '','' (Some [300]) None 256 None None True True False
     = Some (Inr \<lparr>output_list = [], success = True, failure_reason = SUCCESS, steps = 1,
                  memory = Some [300], program_trace = None\<rparr>)
   \<and> \<not> in_range 256 [300]"
  using run_read_300 by (simp add: in_range_def)

text \<open>
  C3, amended.  For every program and every base \<open>\<ge> 2\<close>: if every value of the input
  buffer, and every cell of \<open>init_memory\<close> when one is supplied, lies in \<open>0..base-1\<close>, then
  at every point of the execution every tape cell lies in \<open>0..base-1\<close>.  The points of the
  execution are the snapshots of the trace (one before every executed character and one
  after the loop) and the final memory; the bounds \<open>timeout\<close> and \<open>max_steps\<close> are
  arbitrary, so every prefix of every execution is covered.
\<close>

theorem evaluate_cells_in_range:
  assumes "2 \<le> base"
    and "case input_buffer of None \<Rightarrow> True | Some b \<Rightarrow> in_range base b"
    and "case init_memory of None \<Rightarrow> True | Some m \<Rightarrow> in_range base m"
    and "evaluate code input_buffer init_memory base timeout max_steps require_syntax
           output_memory debug = Some (Inr r)"
  shows "(\<forall>m. memory r = Some m \<longrightarrow> in_range base m) \<and>
         (\<forall>tr. program_trace r = Some tr \<longrightarrow> (\<forall>s \<in> set tr. in_range base (snap_memory s)))"
  using assms by (rule evaluate_range_aux)

theorem evaluate_cells_in_range_witness:
  "(2::int) \<le> 5 \<and> in_range 5 [3]
   \<and> evaluate '',+'' (Some [3]) None 5 None None True True True
     = Some (Inr \<lparr>output_list = [], success = True, failure_reason = SUCCESS, steps = 2,
                  memory = Some [4],
                  program_trace = Some [ExecutionSnapshot 0 '','' 0 0 [0] 3 [],
                                        ExecutionSnapshot 1 ''+'' 0 3 [3] 0 [],
                                        ExecutionSnapshot 2 [] 0 4 [4] 0 []]\<rparr>)
   \<and> in_range 5 [4] \<and> in_range 5 [0] \<and> in_range 5 [3]"
proof -
  have h1: "(2::int) \<le> 5" by simp
  have h2: "case Some [3] of None \<Rightarrow> True | Some b \<Rightarrow> in_range 5 b" by (simp add: in_range_def)
  have h3: "case (None :: int list option) of None \<Rightarrow> True | Some m \<Rightarrow> in_range 5 m" by simp
  from evaluate_cells_in_range[OF h1 h2 h3 run_read_3] h2 run_read_3
  show ?thesis by simp
qed

subsection \<open>C4: a larger step limit extends the output\<close>

text \<open>
  C4.  With the wall-clock timeout disabled, for every program, input buffer and integer
  \<open>n\<close>, \<open>evaluate\<close> with \<open>max_steps = n\<close> and with \<open>max_steps = n + 1\<close> both return, without
  an exception, and the output of the first is a prefix of the output of the second.  This
  holds whatever the status of the first run is, so in particular when it did not finish
  with \<open>SUCCESS\<close>.
\<close>

theorem evaluate_max_steps_prefix:
  "\<exists>r1 r2. evaluate code input_buffer init_memory base None (Some n) require_syntax
               output_memory debug = Some (Inr r1)
     \<and> evaluate code input_buffer init_memory base None (Some (n + 1)) require_syntax
               output_memory debug = Some (Inr r2)
     \<and> prefix (output_list r1) (output_list r2)"
  using evaluate_limited evaluate_prefix_aux by metis

theorem evaluate_max_steps_prefix_witness:
  "evaluate ''+.[].'' None None 5 None (Some 3) True False False
     = Some (Inr \<lparr>output_list = [1], success = False, failure_reason = STEP_LIMIT, steps = 3,
                  memory = None, program_trace = None\<rparr>)
   \<and> evaluate ''+.[].'' None None 5 None (Some (3 + 1)) True False False
     = Some (Inr \<lparr>output_list = [1], success = False, failure_reason = STEP_LIMIT, steps = 4,
                  memory = None, program_trace = None\<rparr>)
   \<and> prefix [1::int] [1]"
  using evaluate_max_steps_prefix[of "''+.[].''" None None 5 3 True False False]
    run_loop_limit_3 run_loop_limit_4
  by auto

subsection \<open>C5: scoring stops at the first failed run\<close>

text \<open>
  C5.  Let \<open>_score_code\<close> return a record for a program, and let the \<open>i\<close>-th test case be
  the first on which the interpreter reports a failure (no success: timeout, step limit or
  syntax error).  Then the loop over the test cases ends with the accumulated reward
  \<open>failure_reward\<close>, whatever was accumulated before, with an empty list of outputs and
  with the interpreter's status string as reason; the record has these outputs and this
  reason; its \<open>episode_rewards\<close> are \<open>len(code) - 1\<close> zeros followed by
  \<open>failure_reward / best_reward\<close>; and no later test case is run: the loop gives the same
  result whatever test cases follow the \<open>i\<close>-th and whatever the clock does in later
  runs.
\<close>

theorem score_code_interpreter_failure:
  assumes "score_code m clock code = Some (Inr info)"
    and "i < length (make_io_set (task m))"
    and "\<forall>j < i. \<exists>r. run_case m clock code j (fst (make_io_set (task m) ! j)) = Some (Inr r)
                    \<and> success r"
    and "run_case m clock code i (fst (make_io_set (task m) ! i)) = Some (Inr r)"
    and "\<not> success r"
  shows "score_cases m clock code 0 (make_io_set (task m)) (0, [], ''correct'')
           = Some (Inr (failure_reward m, [], failure_reason r))
     \<and> failure_reason r \<in> {TIMEOUT, STEP_LIMIT, SYNTAX_ERROR}
     \<and> code_output info = []
     \<and> reason info = failure_reason r
     \<and> episode_rewards info = replicate (length code - 1) 0 @ [failure_reward m / best_reward m]
     \<and> last (episode_rewards info) = failure_reward m / best_reward m
     \<and> (\<forall>clock' rest'. (\<forall>j \<le> i. clock' j = clock j) \<longrightarrow>
            score_cases m clock' code 0 (take (Suc i) (make_io_set (task m)) @ rest')
              (0, [], ''correct'')
          = score_cases m clock code 0 (make_io_set (task m)) (0, [], ''correct''))"
proof -
  note a = score_code_failure_aux[OF assms]
  from assms(4) have "failure_reason r \<in> {TIMEOUT, STEP_LIMIT, SYNTAX_ERROR}"
    unfolding run_case_def
    using evaluate_failure_reason[of code] evaluate_stop_order_aux[of code] assms(5)
    by (metis insert_iff)
  moreover from a(4) have "last (episode_rewards info) = failure_reward m / best_reward m"
    by simp
  ultimately show ?thesis using a by blast
qed

theorem score_code_interpreter_failure_witness:
  "score_code demo_manager no_clock ''+.[]'' =
     Some (Inr \<lparr>episode_rewards = [0, 0, 0, - 2 / 6], input_case = [[], []],
       correct_output = [[1], [1, 2]], code_output = [], reason = STEP_LIMIT,
       info_input_type = IOType_integer, info_output_type = IOType_integer\<rparr>)
   \<and> (0::nat) < length (make_io_set (task demo_manager))
   \<and> run_case demo_manager no_clock ''+.[]'' 0 (fst (make_io_set (task demo_manager) ! 0))
       = Some (Inr \<lparr>output_list = [1], success = False, failure_reason = STEP_LIMIT, steps = 3,
                  memory = None, program_trace = None\<rparr>)
   \<and> score_cases demo_manager no_clock ''+.[]'' 0 (make_io_set (task demo_manager))
         (0, [], ''correct'') = Some (Inr (failure_reward demo_manager, [], STEP_LIMIT))"
proof -
  have h2: "(0::nat) < length (make_io_set (task demo_manager))"
    by (simp add: demo_fields)
  have h3: "\<forall>j < (0::nat). \<exists>r. run_case demo_manager no_clock ''+.[]'' j
       (fst (make_io_set (task demo_manager) ! j)) = Some (Inr r) \<and> success r"
    by simp
  have h4: "run_case demo_manager no_clock ''+.[]'' 0 (fst (make_io_set (task demo_manager) ! 0))
       = Some (Inr \<lparr>output_list = [1], success = False, failure_reason = STEP_LIMIT, steps = 3,
                  memory = None, program_trace = None\<rparr>)"
    by (simp add: demo_fields demo_run_0)
  have h5: "\<not> success \<lparr>output_list = [1], success = False, failure_reason = STEP_LIMIT, steps = 3,
                  memory = None, program_trace = None\<rparr>"
    by simp
  from score_code_interpreter_failure[OF demo_score h2 h3 h4 h5] demo_score h2 h4
  show ?thesis by simp
qed

subsection \<open>C6: the defaults of the constructor\<close>

text \<open>
  C6, as stated, fails: the default of \<open>correct_bonus\<close> in the signature of
  \<open>MultiIOTaskManager.__init__\<close> is 1.0, not 2.0.
\<close>

theorem init_correct_bonus_counterexample:
  "map_sum id correct_bonus (MultiIOTaskManager_init demo_task no_kwargs) = Inr 1
   \<and> (1::real) \<noteq> 2.0"
  using demo_default_bonus by simp

text \<open>
  C6, amended.  The defaults of the constructor are \<open>max_execution_steps = 5000\<close>,
  \<open>correct_bonus = 1.0\<close>, \<open>code_length_bonus = 1.0\<close> and \<open>failure_reward = -2.0\<close>, and it
  sets \<open>time_penalty = 1 / (max_code_length - min_code_length)\<close> when
  \<open>max_code_length > min_code_length\<close>, else 0.
\<close>

theorem init_defaults:
  assumes "MultiIOTaskManager_init t kw = Inr m"
  shows "(kw_max_execution_steps kw = None \<longrightarrow> max_execution_steps m = 5000)
     \<and> (kw_correct_bonus kw = None \<longrightarrow> correct_bonus m = 1.0)
     \<and> (kw_code_length_bonus kw = None \<longrightarrow> code_length_bonus m = 1.0)
     \<and> (kw_failure_reward kw = None \<longrightarrow> failure_reward m = - 2.0)
     \<and> (kw_max_code_length kw = None \<longrightarrow> max_code_length m = 32)
     \<and> (kw_min_code_length kw = None \<longrightarrow> min_code_length m = 0)
     \<and> time_penalty m = (if max_code_length m > min_code_length m
                          then 1 / (max_code_length m - min_code_length m) else 0)"
  using init_fields[OF assms] by (simp add: arg_def)

theorem init_defaults_witness:
  "MultiIOTaskManager_init demo_task (no_kwargs\<lparr>kw_max_execution_steps := Some 3\<rparr>)
     = Inr demo_manager
   \<and> correct_bonus demo_manager = 1.0 \<and> code_length_bonus demo_manager = 1.0
   \<and> failure_reward demo_manager = - 2.0 \<and> time_penalty demo_manager = 1 / 32"
  using init_defaults[OF demo_init] demo_init
  by (simp add: no_kwargs_def demo_manager_def)

subsection \<open>C7: the queue keeps the highest scores\<close>

text \<open>
  C7.  Containers with pairwise distinct items are pushed, in any order, into an empty
  queue of capacity \<open>C\<close>.  No push raises, and the queue ends up with
  \<open>min(C, number pushed)\<close> containers, all of them pushed, with distinct items and with
  the highest scores: no container that was pushed and is not in the queue has a greater
  score than one that is in the queue.  The membership set is the set of the items of the
  heap, and pushing an item that is in the queue, with any score and extra data, returns
  the queue unchanged (heap and membership set).
\<close>

theorem queue_keeps_highest_scored:
  assumes "distinct (map item_of pushes)"
  shows "\<exists>q. push_all (MaxUniquePriorityQueue_init c) pushes = Inr q
     \<and> capacity q = c
     \<and> length (heap q) = min c (length pushes)
     \<and> set (heap q) \<subseteq> set pushes
     \<and> distinct (map item_of (heap q))
     \<and> unique_items q = item_of ` set (heap q)
     \<and> (\<forall>x \<in> set (heap q). \<forall>y \<in> set pushes - set (heap q). fst y \<le> fst x)
     \<and> (\<forall>x \<in> set (heap q). \<forall>score extra_data. push q score (item_of x) extra_data = Inr q)"
  using assms by (rule queue_keeps_highest)

theorem queue_keeps_highest_scored_witness:
  "distinct (map item_of [(1::int, ''a'', None :: nat option), (3, ''b'', None), (2, ''c'', None)])
   \<and> push_all (MaxUniquePriorityQueue_init 2)
         [(1::int, ''a'', None :: nat option), (3, ''b'', None), (2, ''c'', None)]
       = Inr \<lparr>capacity = 2, heap = [(2, ''c'', None), (3, ''b'', None)],
              unique_items = {''c'', ''b''}\<rparr>
   \<and> length [(2::int, ''c'', None :: nat option), (3, ''b'', None)]
       = min 2 (length [(1::int, ''a'', None :: nat option), (3, ''b'', None), (2, ''c'', None)])
   \<and> push \<lparr>capacity = 2, heap = [(2, ''c'', None), (3, ''b'', None)],
              unique_items = {''c'', ''b''}\<rparr> (7::int) ''b'' (Some (0::nat))
       = Inr \<lparr>capacity = 2, heap = [(2, ''c'', None), (3, ''b'', None)],
              unique_items = {''c'', ''b''}\<rparr>"
proof -
  have h: "distinct (map item_of [(1::int, ''a'', None :: nat option), (3, ''b'', None), (2, ''c'', None)])"
    by (simp add: item_of_def)
  from queue_keeps_highest_scored[OF h, of 2] h demo_queue demo_queue_duplicate
  show ?thesis by simp
qed

subsection \<open>C8: saving and loading a roulette wheel\<close>



subsection \<open>C9: what \<open>read_all\<close> aggregates\<close>

text \<open>
  C9, as stated, fails.  A directory holds the files of shards 0 and 1, one entry each, and
  \<open>read_all\<close> is called with \<open>num_shards = 1\<close>: the file of shard 1 is discovered, but
  its entry is not in the aggregate.
\<close>

theorem read_all_counterexample:
  "read_all demo_files (Some demo_listing) 1 =
     Inr ([[(''max_local_repetitions'', 1), (''npe'', 5)]],
          Inr [\<lparr>num_local_reps_completed = 1, max_local_reps = 1, finished = True\<rparr>])
   \<and> discovered demo_listing 1 = Some ''experiment_results_1.txt''
   \<and> shard_entries demo_files demo_listing 1 = [[(''max_local_repetitions'', 1), (''npe'', 7)]]
   \<and> [(''max_local_repetitions'', 1), (''npe'', 7)]
        \<notin> set [[(''max_local_repetitions'', 1), (''npe'', 5 :: int)]]"
  using demo_read_all_1 demo_shard_1 by simp

text \<open>
  C9, amended.  For every results directory that exists and every shard count \<open>N\<close>, if
  \<open>read_all(num_shards=N)\<close> returns, its aggregate is the concatenation, for the shard ids
  \<open>0, ..., N-1\<close> in this order, of the entries of the discovered file of each id (where
  several listed names have the same id, the last one listed); so its entries are exactly
  the entries of the discovered shard files with an id below \<open>N\<close>.  Discovered files with
  an id \<open>\<ge> N\<close> contribute nothing, and neither do shards absent on disk.  There is one
  \<open>ShardStats\<close> per shard id below \<open>N\<close>; it counts the entries of the shard, and it is
  marked finished if and only if this number is \<open>\<ge>\<close> the \<open>max_local_repetitions\<close> that all
  entries of the shard declare and that value is \<open>> 0\<close>; a missing or empty shard has the
  declared value 0 and is not finished.
\<close>

theorem read_all_aggregate:
  assumes "read_all files (Some all_children) n = Inr (aggregate, st)"
  shows "\<exists>stats. st = Inr stats
     \<and> aggregate = concat (map (shard_entries files all_children) [0 ..< n])
     \<and> set aggregate = (\<Union>i \<in> {..< n}. set (shard_entries files all_children i))
     \<and> length stats = n
     \<and> (\<forall>i < n. num_local_reps_completed (stats ! i) = length (shard_entries files all_children i)
           \<and> (finished (stats ! i) \<longleftrightarrow>
                int (length (shard_entries files all_children i)) \<ge> max_local_reps (stats ! i)
                \<and> max_local_reps (stats ! i) > 0)
           \<and> (shard_entries files all_children i = [] \<longrightarrow>
                max_local_reps (stats ! i) = 0 \<and> \<not> finished (stats ! i))
           \<and> (\<forall>r \<in> set (shard_entries files all_children i).
                map_of r ''max_local_repetitions'' = Some (max_local_reps (stats ! i))))"
proof -
  from read_all_char[OF assms] obtain stats where s: "st = Inr stats"
    and a: "aggregate = concat (map (shard_entries files all_children) [0 ..< n])"
    and r: "length stats = n
     \<and> (\<forall>i < n. num_local_reps_completed (stats ! i) = length (shard_entries files all_children i)
           \<and> (finished (stats ! i) \<longleftrightarrow>
                int (length (shard_entries files all_children i)) \<ge> max_local_reps (stats ! i)
                \<and> max_local_reps (stats ! i) > 0)
           \<and> (shard_entries files all_children i = [] \<longrightarrow>
                max_local_reps (stats ! i) = 0 \<and> \<not> finished (stats ! i))
           \<and> (\<forall>r \<in> set (shard_entries files all_children i).
                map_of r ''max_local_repetitions'' = Some (max_local_reps (stats ! i))))"
    by blast
  from a have "set aggregate = (\<Union>i \<in> {..< n}. set (shard_entries files all_children i))"
    by (simp add: lessThan_atLeast0)
  with s a r show ?thesis by blast
qed

theorem read_all_aggregate_witness:
  "read_all demo_files (Some demo_listing) 3 =
     Inr ([[(''max_local_repetitions'', 1), (''npe'', 5)],
           [(''max_local_repetitions'', 1), (''npe'', 7)]],
          Inr [\<lparr>num_local_reps_completed = 1, max_local_reps = 1, finished = True\<rparr>,
               \<lparr>num_local_reps_completed = 1, max_local_reps = 1, finished = True\<rparr>,
               \<lparr>num_local_reps_completed = 0, max_local_reps = 0, finished = False\<rparr>])
   \<and> [[(''max_local_repetitions'', 1), (''npe'', 5)],
        [(''max_local_repetitions'', 1), (''npe'', 7)]]
       = concat (map (shard_entries demo_files demo_listing) [0 ..< 3])"
  using read_all_aggregate[OF demo_read_all_3] demo_read_all_3 by blast

subsection \<open>C10: the lengths of the children of a crossover\<close>

text \<open>
  C10.  For every pair of parents of which the longer is not empty, whatever position is
  drawn, \<open>crossover\<close> returns two children whose lengths sum to the sum of the lengths of
  the parents, and neither child is longer than the longer parent.
\<close>

theorem crossover_children_lengths:
  assumes "parent1 \<noteq> [] \<or> parent2 \<noteq> []"
  shows "\<exists>child1 child2. crossover u parent1 parent2 = Inr (child1, child2)
     \<and> length child1 + length child2 = length parent1 + length parent2
     \<and> length child1 \<le> max (length parent1) (length parent2)
     \<and> length child2 \<le> max (length parent1) (length parent2)"
  using assms by (rule crossover_lengths)

theorem crossover_children_lengths_witness:
  "crossover 7 ''abcde'' ''xy'' = Inr (''ab'', ''xycde'')
   \<and> length ''ab'' + length ''xycde'' = length ''abcde'' + length ''xy''
   \<and> length ''ab'' \<le> max (length ''abcde'') (length ''xy'')
   \<and> length ''xycde'' \<le> max (length ''abcde'') (length ''xy'')"
proof -
  have h: "''abcde'' \<noteq> [] \<or> ''xy'' \<noteq> []" by simp
  from crossover_children_lengths[OF h, of 7] demo_crossover show ?thesis by simp
qed

end
